theory Spec2Isabelle
  imports Main "HOL-Library.Word"
begin

unbundle bit_operations_syntax

section \<open>Data model of the TCP connection handler (pkg/vif/tcp/handler.go)\<close>

text \<open>
  Machine integers. \<open>uint8\<close>, \<open>uint16\<close> and \<open>uint32\<close> are words, so that
  \<open>+\<close> and \<open>-\<close> wrap as in Go and \<open>\<le>\<close>, \<open><\<close> are the unsigned comparisons.
  \<open>int64\<close> values (window sizes, nanosecond time stamps) are integers, and every
  \<open>int64\<close> operation of the source is wrapped in \<open>i64\<close>, the two's complement
  wrap-around to 64 bits. Go's \<open>int\<close> (slice lengths and indices) is \<open>int\<close> or
  \<open>nat\<close>; \<open>retries\<close> (an \<open>int32\<close> that starts at 0 and is only ever incremented
  while below 7) is a \<open>nat\<close>.
\<close>

type_synonym u8 = "8 word"
type_synonym u16 = "16 word"
type_synonym u32 = "32 word"

definition i64 :: "int \<Rightarrow> int" where
  "i64 x = sint (word_of_int x :: 64 word)"

datatype state =
    stateListen
  | stateSynReceived
  | stateSynSent
  | stateEstablished
  | stateFinWait1
  | stateFinWait2
  | stateCloseWait
  | stateLastAck
  | stateClosing
  | stateTimeWait
  | stateClosed

text \<open>
  The packet view is a library outside the handler; a packet is the record of the header
  fields and byte areas that the handler reads and writes through the accessors
  \<open>Sequence()\<close>, \<open>AckNumber()\<close>, \<open>WindowSize()\<close>, the flag accessors,
  \<open>OptionBytes()\<close> and \<open>Payload()\<close>. \<open>HeaderLen\<close> is the header length in bytes
  that \<open>NewReplyPacket\<close> was given; \<open>PayloadLen()\<close> is the length of the payload.
\<close>

record Packet =
  Sequence :: u32
  AckNumber :: u32
  WindowSize :: u16
  ACK :: bool
  FIN :: bool
  SYN :: bool
  RST :: bool
  PSH :: bool
  HeaderLen :: nat
  OptionBytes :: "u8 list"
  Payload :: "u8 list"

definition PayloadLen :: "Packet \<Rightarrow> nat" where
  "PayloadLen p = length (Payload p)"

text \<open>
  \<open>queueElement\<close>: the \<open>next\<close> link is the list structure itself; both queues are
  lists with the head of the linked list first.
\<close>

record queueElement =
  sequence :: u32
  retries :: nat
  cTime :: int
  packet :: Packet

datatype logged =
    IllegalStateTransition state state
  | ResendGivingUp u32
  | TunWriteError

text \<open>
  The handler, once \<open>Start\<close> has set \<open>cancel\<close>. \<open>remove\<close> is \<open>True\<close> while the
  function reference is non-nil;
  \<open>removeCalls\<close> and \<open>cancelCalls\<close> count the invocations of the \<open>remove\<close>
  callback and of \<open>cancel\<close>; \<open>toTun\<close> is the TUN writer, \<open>True\<close> for a packet
  that it writes without error, and \<open>tunWritten\<close> the packets written so far, most
  recent first; \<open>fromTun\<close> is the buffer of the inbound channel and \<open>toMgrCh\<close> the
  packets handed to the manager channel, oldest first;
  \<open>awaitWinSize\<close> holds the requested size of the registered waiter (its \<open>done\<close>
  channel is closed exactly when the reference is set back to nil);
  \<open>errorLog\<close> collects the \<open>dlog.Errorf\<close> calls, most recent first.
\<close>

record handler =
  remove :: bool
  removeCalls :: nat
  cancelCalls :: nat
  toTun :: "Packet \<Rightarrow> bool"
  tunWritten :: "Packet list"
  fromTun :: "Packet list"
  toMgrCh :: "Packet list"
  toMgrChClosed :: bool
  ackWaitQueue :: "queueElement list"
  ackWaitQueueSize :: u32
  oooQueue :: "queueElement list"
  state :: state
  sequence :: u32
  sequenceAcked :: u32
  lastKnown :: u32
  finalSeq :: u32
  myWindowSize :: u32
  peerSequenceToAck :: u32
  peerSequenceAcked :: u32
  peerWindow :: int
  awaitWinSize :: "int option"
  peerPermitsSACK :: bool
  peerWindowScale :: u8
  peerMaxSegmentSize :: u16
  stopTimer :: bool
  errorLog :: "logged list"

definition myWindowScale :: nat where
  "myWindowScale = 8"

definition maxReceiveWindow :: nat where
  "maxReceiveWindow = 2 ^ (myWindowScale + 12)"

definition tcpHeaderLen :: nat where
  "tcpHeaderLen = 20"

definition selectiveAck :: u8 where
  "selectiveAck = 5"

definition endOfOptions :: u8 where
  "endOfOptions = 0"

definition noOp :: u8 where
  "noOp = 1"

definition initialResendDelayMs :: int where
  "initialResendDelayMs = 200"

definition maxResends :: nat where
  "maxResends = 7"

text \<open>\<open>NewHandler\<close>, for a handler built with a non-nil \<open>remove\<close> callback.\<close>

definition NewHandler :: "(Packet \<Rightarrow> bool) \<Rightarrow> handler" where
  "NewHandler w = \<lparr>
     remove = True, removeCalls = 0, cancelCalls = 0, toTun = w, tunWritten = [],
     fromTun = [], toMgrCh = [], toMgrChClosed = False,
     ackWaitQueue = [], ackWaitQueueSize = 0, oooQueue = [],
     state = stateListen, handler.sequence = 0, sequenceAcked = 0, lastKnown = 0,
     finalSeq = 0, myWindowSize = of_nat maxReceiveWindow,
     peerSequenceToAck = 0, peerSequenceAcked = 0, peerWindow = 0, awaitWinSize = None,
     peerPermitsSACK = False, peerWindowScale = 0, peerMaxSegmentSize = 0,
     stopTimer = False, errorLog = [] \<rparr>"

text \<open>
  Modelled from the spec: \<open>NewReplyPacket\<close>, the packet view's "builder for reply
  packets with a chosen options length", is not in the handler's file. It returns a
  packet with a TCP header of \<open>hl\<close> bytes (so \<open>hl - 20\<close> option bytes) and
  \<open>payloadLen\<close> payload bytes, everything zero.
\<close>

definition NewReplyPacket :: "nat \<Rightarrow> nat \<Rightarrow> Packet" where
  "NewReplyPacket hl payloadLen = \<lparr>
     Sequence = 0, AckNumber = 0, WindowSize = 0, ACK = False, FIN = False, SYN = False,
     RST = False, PSH = False, HeaderLen = hl,
     OptionBytes = replicate (hl - tcpHeaderLen) 0, Payload = replicate payloadLen 0 \<rparr>"

text \<open>
  Concrete values for the examples: the handler that \<open>NewHandler\<close> builds over a TUN
  writer that never fails, an inbound ACK segment with a given sequence and payload
  length, and a queue record for such a segment.
\<close>

definition exHandler :: handler where
  "exHandler = NewHandler (\<lambda>_. True)"

definition exPacket :: "u32 \<Rightarrow> nat \<Rightarrow> Packet" where
  "exPacket sq n = (NewReplyPacket tcpHeaderLen n)\<lparr>Sequence := sq, ACK := True\<rparr>"

definition exElement :: "u32 \<Rightarrow> u32 \<Rightarrow> nat \<Rightarrow> int \<Rightarrow> queueElement" where
  "exElement s sq n t =
     \<lparr>queueElement.sequence = s, retries = 0, cTime = t, packet = exPacket sq n\<rparr>"

section \<open>State machine\<close>

definition illegalStateTransition :: "handler \<Rightarrow> state \<Rightarrow> handler" where
  "illegalStateTransition h to =
     h\<lparr>errorLog := IllegalStateTransition (state h) to # errorLog h\<rparr>"

text \<open>
  \<open>setState\<close>: the switch of the source, one equation per \<open>case\<close>. The switch has
  no case for \<open>stateTimeWait\<close> and no default, so that state falls through to the
  assignment.
\<close>

fun setState_valid :: "state \<Rightarrow> state \<Rightarrow> bool" where
  "setState_valid stateClosed s = (\<not> (s \<noteq> stateListen \<and> s \<noteq> stateSynSent))"
| "setState_valid stateListen s =
     (\<not> (s \<noteq> stateSynReceived \<and> s \<noteq> stateSynSent \<and> s \<noteq> stateListen))"
| "setState_valid stateSynReceived s =
     (\<not> (s \<noteq> stateEstablished \<and> s \<noteq> stateFinWait1 \<and> s \<noteq> stateClosed))"
| "setState_valid stateSynSent s =
     (\<not> (s \<noteq> stateSynReceived \<and> s \<noteq> stateEstablished \<and> s \<noteq> stateClosed))"
| "setState_valid stateEstablished s = (\<not> (s \<noteq> stateCloseWait \<and> s \<noteq> stateFinWait1))"
| "setState_valid stateFinWait1 s =
     (\<not> (s \<noteq> stateClosing \<and> s \<noteq> stateFinWait2 \<and> s \<noteq> stateTimeWait))"
| "setState_valid stateFinWait2 s = (\<not> (s \<noteq> stateTimeWait))"
| "setState_valid stateClosing s = (\<not> (s \<noteq> stateTimeWait))"
| "setState_valid stateCloseWait s = (\<not> (s \<noteq> stateLastAck))"
| "setState_valid stateLastAck s = (\<not> (s \<noteq> stateClosed))"
| "setState_valid stateTimeWait s = True"

definition setState :: "handler \<Rightarrow> state \<Rightarrow> handler" where
  "setState h s =
     (if setState_valid (state h) s then h\<lparr>state := s\<rparr> else illegalStateTransition h s)"

text \<open>
  The table of permitted transitions of section 4.1 of the specification, written from
  the specification's words, to be compared with \<open>setState\<close>.
\<close>

fun permitted :: "state \<Rightarrow> state list" where
  "permitted stateClosed = [stateListen, stateSynSent]"
| "permitted stateListen = [stateSynReceived, stateSynSent, stateListen]"
| "permitted stateSynReceived = [stateEstablished, stateFinWait1, stateClosed]"
| "permitted stateSynSent = [stateSynReceived, stateEstablished, stateClosed]"
| "permitted stateEstablished = [stateCloseWait, stateFinWait1]"
| "permitted stateFinWait1 = [stateClosing, stateFinWait2, stateTimeWait]"
| "permitted stateFinWait2 = [stateTimeWait]"
| "permitted stateClosing = [stateTimeWait]"
| "permitted stateCloseWait = [stateLastAck]"
| "permitted stateLastAck = [stateClosed]"
| "permitted stateTimeWait = []"

section \<open>Teardown\<close>

text \<open>
  \<open>hardStop\<close> runs without the mutex: \<open>HandlePacket\<close> never takes it, \<open>stopLocked\<close>
  releases it before the call and \<open>tunWrite\<close> runs after the unlock. So a call is two
  steps between which another goroutine can run: the read of \<open>h.remove\<close> into the
  local \<open>rm\<close>, and the body under \<open>rm != nil\<close>, which clears the reference, invokes
  the callback, sets the state to CLOSED, cancels the context and drains the inbound
  channel. \<open>hardStopBody rm\<close> is the body for the value \<open>rm\<close> that was read, and
  \<open>hardStop\<close> is a call that nothing interrupts.
\<close>

definition hardStopBody :: "bool \<Rightarrow> handler \<Rightarrow> handler" where
  "hardStopBody rm h =
     (if rm
      then h\<lparr>remove := False, removeCalls := Suc (removeCalls h), state := stateClosed,
             cancelCalls := Suc (cancelCalls h), fromTun := []\<rparr>
      else h)"

definition hardStop :: "handler \<Rightarrow> handler" where
  "hardStop h = hardStopBody (remove h) h"

text \<open>
  Calls of \<open>hardStop\<close> on several goroutines. Every call is at one of three points:
  not started, \<open>h.remove\<close> read (with the value read), or returned. A schedule is the
  list of the goroutines in the order in which they take their next step.
\<close>

datatype progress = notStarted | hasRead bool | returned

fun hardStopStep :: "handler \<times> progress list \<Rightarrow> nat \<Rightarrow> handler \<times> progress list" where
  "hardStopStep (h, ps) g =
     (if g < length ps
      then (case ps ! g of
              notStarted \<Rightarrow> (h, ps[g := hasRead (remove h)])
            | hasRead rm \<Rightarrow> (hardStopBody rm h, ps[g := returned])
            | returned \<Rightarrow> (h, ps))
      else (h, ps))"

definition hardStopCalls :: "handler \<Rightarrow> nat \<Rightarrow> nat list \<Rightarrow> handler \<times> progress list" where
  "hardStopCalls h n schedule = foldl hardStopStep (h, replicate n notStarted) schedule"

section \<open>Ack-wait queue\<close>

text \<open>
  The ack-wait queue is strictly descending when every record's sequence is greater
  than the sequence of every record behind it (unsigned comparison, as in the source).
\<close>

definition descending :: "queueElement list \<Rightarrow> bool" where
  "descending q = sorted_wrt (\<lambda>a b. queueElement.sequence a > queueElement.sequence b) q"

text \<open>
  \<open>onReceivedACK\<close>: the first loop walks past the records whose sequence is greater
  than \<open>seq\<close>; when it stops at a record, the list is cut in front of it, and the
  second loop decrements the size once for every record that was cut off.
\<close>

definition onReceivedACK :: "handler \<Rightarrow> u32 \<Rightarrow> handler" where
  "onReceivedACK h seq =
     (let h1 = h\<lparr>sequenceAcked := seq\<rparr>;
          kept = takeWhile (\<lambda>el. queueElement.sequence el > seq) (ackWaitQueue h1);
          cut = dropWhile (\<lambda>el. queueElement.sequence el > seq) (ackWaitQueue h1)
      in if cut \<noteq> []
         then h1\<lparr>ackWaitQueue := kept,
                 ackWaitQueueSize := ackWaitQueueSize h1 - of_nat (length cut)\<rparr>
         else h1)"

definition receiveWindow :: "handler \<Rightarrow> u32" where
  "receiveWindow h = myWindowSize h"

text \<open>
  \<open>prepareToSend\<close>, with \<open>now\<close> the value of \<open>time.Now().UnixNano()\<close>. The queued
  record refers to the packet whose header is filled in afterwards, so the record holds
  the packet with its sequence, ack number and window set. The result is the returned
  flag, the prepared packet and the handler.
\<close>

definition prepareToSend :: "handler \<Rightarrow> int \<Rightarrow> Packet \<Rightarrow> u32 \<Rightarrow> bool \<times> Packet \<times> handler" where
  "prepareToSend h now pkt seqAdd =
     (let ackNbr = peerSequenceToAck h;
          seq = handler.sequence h;
          pkt' = pkt\<lparr>Sequence := seq, AckNumber := ackNbr,
                     WindowSize := ucast (drop_bit myWindowScale (receiveWindow h))\<rparr>;
          h1 = (if seqAdd > 0
                then h\<lparr>handler.sequence := handler.sequence h + seqAdd,
                       ackWaitQueue :=
                         \<lparr>queueElement.sequence = handler.sequence h + seqAdd, retries = 0,
                          cTime = now, packet = pkt'\<rparr> # ackWaitQueue h,
                       ackWaitQueueSize := ackWaitQueueSize h + 1\<rparr>
                else h)
      in (True, pkt', h1\<lparr>peerSequenceAcked := ackNbr\<rparr>))"

text \<open>
  \<open>setAckAndPeerWindowSize\<close>. The shift \<open>int64(WindowSize()) << peerWindowScale\<close> is
  a multiplication by a power of two wrapped to 64 bits (0 for a shift count of 64 or
  more). Closing the waiter's \<open>done\<close> channel is the reset of \<open>awaitWinSize\<close>.
\<close>

definition setAckAndPeerWindowSize :: "handler \<Rightarrow> Packet \<Rightarrow> handler" where
  "setAckAndPeerWindowSize h tcpHeader =
     (if ACK tcpHeader
      then (let ackNbr = AckNumber tcpHeader in
            if ackNbr = 0 then h
            else (let h1 = onReceivedACK h ackNbr;
                      sz = i64 (uint (WindowSize tcpHeader) * 2 ^ unat (peerWindowScale h1));
                      h2 = h1\<lparr>peerWindow := sz\<rparr>
                  in case awaitWinSize h2 of
                       None \<Rightarrow> h2
                     | Some rqSize \<Rightarrow>
                         (let wsz = i64 (sz - uint (handler.sequence h2 - ackNbr)) in
                          if wsz \<ge> rqSize then h2\<lparr>awaitWinSize := None\<rparr> else h2)))
      else h)"

section \<open>Out-of-order queue\<close>

definition ascending :: "queueElement list \<Rightarrow> bool" where
  "ascending q = sorted_wrt (\<lambda>a b. queueElement.sequence a < queueElement.sequence b) q"

text \<open>
  The search loop of \<open>addOutOfOrderPacket\<close>: the number of records that the loop
  walks past (the records up to and including \<open>prev\<close>), or \<open>None\<close> when it meets a
  record with the packet's sequence and the function returns.
\<close>

fun oooInsertPos :: "u32 \<Rightarrow> queueElement list \<Rightarrow> nat option" where
  "oooInsertPos sq [] = Some 0"
| "oooInsertPos sq (el # rest) =
     (if queueElement.sequence el = sq then None
      else if queueElement.sequence el > sq then Some 0
      else map_option Suc (oooInsertPos sq rest))"

definition addOutOfOrderPacket :: "handler \<Rightarrow> int \<Rightarrow> Packet \<Rightarrow> handler" where
  "addOutOfOrderPacket h now pkt =
     (let sq = Sequence pkt in
      case oooInsertPos sq (oooQueue h) of
        None \<Rightarrow> h
      | Some k \<Rightarrow>
          (let pl = \<lparr>queueElement.sequence = sq, retries = 0, cTime = now, packet = pkt\<rparr>
           in h\<lparr>oooQueue := take k (oooQueue h) @ pl # drop k (oooQueue h)\<rparr>))"

section \<open>Writing to the TUN device\<close>

text \<open>
  Go's run-time panics are values: a function that can panic returns \<open>Inl\<close> of the
  panic. \<open>Unrepresented\<close> marks the one place where the pointer structure built by the
  source is no longer a list (see \<open>resend\<close>).
\<close>

datatype panic = IndexOutOfRange | SliceBoundsOutOfRange | Unrepresented

text \<open>
  \<open>tunWrite\<close>: a failed write is logged and stops the handler. The mutex is not
  modelled, so \<open>tunWriteUnlocked\<close> is \<open>tunWrite\<close>; what other goroutines do while the
  mutex is released is not part of these functions.
\<close>

definition tunWrite :: "handler \<Rightarrow> Packet \<Rightarrow> handler" where
  "tunWrite h pkt =
     (if toTun h pkt then h\<lparr>tunWritten := pkt # tunWritten h\<rparr>
      else hardStop (h\<lparr>errorLog := TunWriteError # errorLog h\<rparr>))"

definition tunWriteUnlocked :: "handler \<Rightarrow> Packet \<Rightarrow> handler" where
  "tunWriteUnlocked h pkt = tunWrite h pkt"

definition sendToTun :: "handler \<Rightarrow> int \<Rightarrow> Packet \<Rightarrow> u32 \<Rightarrow> handler" where
  "sendToTun h now pkt seqAdd =
     (case prepareToSend h now pkt seqAdd of
        (ok, pkt', h1) \<Rightarrow> if ok then tunWriteUnlocked h1 pkt' else h1)"

section \<open>Replies and the SACK option\<close>

definition PutUint32 :: "u32 \<Rightarrow> u8 list" where
  "PutUint32 v = [ucast (drop_bit 24 v), ucast (drop_bit 16 v), ucast (drop_bit 8 v), ucast v]"

definition Uint32 :: "u8 list \<Rightarrow> panic + u32" where
  "Uint32 b =
     (case b of
        b0 # b1 # b2 # b3 # _ \<Rightarrow>
          Inr (push_bit 24 (ucast b0) OR push_bit 16 (ucast b1) OR push_bit 8 (ucast b2)
               OR ucast b3)
      | _ \<Rightarrow> Inl IndexOutOfRange)"

text \<open>\<open>binary.BigEndian.PutUint32(opts[i:], v)\<close>, for \<open>i + 4 \<le> len(opts)\<close>.\<close>

definition putAt :: "u8 list \<Rightarrow> nat \<Rightarrow> u32 \<Rightarrow> u8 list" where
  "putAt opts i v = take i opts @ PutUint32 v @ drop (i + 4) opts"

text \<open>
  The inner loop of \<open>newResponse\<close>, entered with a record \<open>el\<close> and the records
  \<open>rest\<close> behind it: it extends the right edge by the payload lengths as long as the
  next record starts at the right edge, and tracks the most recent time stamp. It
  returns the right edge, \<open>mreTs\<close>, \<open>mreIdx\<close> and the records that are left.
\<close>

fun sackRun ::
  "u32 \<Rightarrow> int \<Rightarrow> int \<Rightarrow> int \<Rightarrow> queueElement \<Rightarrow> queueElement list
     \<Rightarrow> u32 \<times> int \<times> int \<times> queueElement list" where
  "sackRun rightEdge mreTs mreIdx i el [] =
     (rightEdge + of_nat (PayloadLen (packet el)),
      (if cTime el > mreTs then cTime el else mreTs),
      (if cTime el > mreTs then i else mreIdx), [])"
| "sackRun rightEdge mreTs mreIdx i el (nxt # rest) =
     (let mreIdx1 = (if cTime el > mreTs then i else mreIdx);
          mreTs1 = (if cTime el > mreTs then cTime el else mreTs);
          rightEdge1 = rightEdge + of_nat (PayloadLen (packet el))
      in if queueElement.sequence nxt \<noteq> rightEdge1
         then (rightEdge1, mreTs1, mreIdx1, nxt # rest)
         else sackRun rightEdge1 mreTs1 mreIdx1 i nxt rest)"

lemma sackRun_length:
  "sackRun rightEdge mreTs mreIdx i el rest = (r, t, m, rem) \<Longrightarrow> length rem \<le> length rest"
proof (induction rest arbitrary: rightEdge mreTs mreIdx el)
  case Nil
  then show ?case by auto
next
  case (Cons a rest)
  show ?case
  proof (cases "queueElement.sequence a \<noteq> rightEdge + of_nat (PayloadLen (packet el))")
    case True
    with Cons.prems show ?thesis by (auto simp: Let_def)
  next
    case False
    with Cons.prems have
      "sackRun (rightEdge + of_nat (PayloadLen (packet el)))
         (if cTime el > mreTs then cTime el else mreTs)
         (if cTime el > mreTs then i else mreIdx) i a rest = (r, t, m, rem)"
      by (simp add: Let_def)
    from Cons.IH [OF this] show ?thesis by simp
  qed
qed

text \<open>The outer loop of \<open>newResponse\<close>: one pair of edges for every run.\<close>

function sackEdges ::
  "int \<Rightarrow> int \<Rightarrow> int \<Rightarrow> queueElement list \<Rightarrow> u32 list \<Rightarrow> u32 list \<times> int" where
  "sackEdges i mreTs mreIdx [] edges = (edges, mreIdx)"
| "sackEdges i mreTs mreIdx (el # rest) edges =
     (case sackRun (queueElement.sequence el) mreTs mreIdx i el rest of
        (rightEdge, mreTs1, mreIdx1, rem) \<Rightarrow>
          sackEdges (i + 2) mreTs1 mreIdx1 rem (edges @ [queueElement.sequence el, rightEdge]))"
  by pat_completeness auto
termination
  by (relation "measure (\<lambda>(i, mreTs, mreIdx, q, edges). length q)")
     (auto dest: sackRun_length [OF sym])

definition maxEdges :: nat where
  "maxEdges = 8"

fun writeEdges :: "u8 list \<Rightarrow> nat \<Rightarrow> u32 list \<Rightarrow> u8 list" where
  "writeEdges opts i [] = opts"
| "writeEdges opts i (e # es) = writeEdges (putAt opts i e) (i + 4) es"

definition newResponse :: "handler \<Rightarrow> nat \<Rightarrow> Packet" where
  "newResponse h payloadLen =
     (case oooQueue h of
        [] \<Rightarrow> NewReplyPacket tcpHeaderLen payloadLen
      | el # rest \<Rightarrow>
          (case sackEdges 0 0 (- 1) (el # rest) [] of
             (edges0, mreIdx) \<Rightarrow>
               (let ne0 = length edges0;
                    edges =
                      (if mreIdx > 0
                       then (let k = nat mreIdx;
                                 le = edges0 ! k;
                                 re = edges0 ! (k + 1);
                                 e1 = edges0[k := edges0 ! 0];
                                 e2 = e1[k + 1 := e1 ! 1];
                                 e3 = e2[0 := le]
                             in e3[1 := re])
                       else edges0);
                    ne = (if ne0 > maxEdges then maxEdges else ne0);
                    hl = tcpHeaderLen + 4 + ne * 4;
                    pkt = NewReplyPacket hl payloadLen;
                    opts = (OptionBytes pkt)[0 := selectiveAck, 1 := of_nat (2 + ne * 4)]
                in pkt\<lparr>OptionBytes := writeEdges opts 2 (take ne edges)\<rparr>)))"

text \<open>
  The blocks of the specification, written from its words ("coalescing contiguous OOO
  runs into (leftEdge, rightEdge) pairs"), to be compared with \<open>newResponse\<close>: a
  record is contiguous with the next when the next starts where its payload ends;
  \<open>runs\<close> cuts the queue into its maximal contiguous runs, and the block of a run
  reaches from the sequence of its first record to the end of the payload of its last.
\<close>

definition contiguous :: "queueElement \<Rightarrow> queueElement \<Rightarrow> bool" where
  "contiguous a b =
     (queueElement.sequence b = queueElement.sequence a + of_nat (PayloadLen (packet a)))"

fun runs :: "queueElement list \<Rightarrow> queueElement list list" where
  "runs [] = []"
| "runs (a # q) =
     (case runs q of
        [] \<Rightarrow> [a] # []
      | r # rs \<Rightarrow> if contiguous a (hd r) then (a # r) # rs else [a] # r # rs)"

definition block :: "queueElement list \<Rightarrow> u32 \<times> u32" where
  "block r =
     (queueElement.sequence (hd r),
      queueElement.sequence (last r) + of_nat (PayloadLen (packet (last r))))"

text \<open>The flat list of edges of a list of blocks.\<close>

definition edgesOf :: "(u32 \<times> u32) list \<Rightarrow> u32 list" where
  "edgesOf bs = concat (map (\<lambda>(l, r). [l, r]) bs)"

definition sendACK :: "handler \<Rightarrow> int \<Rightarrow> handler" where
  "sendACK h now = sendToTun h now ((newResponse h 0)\<lparr>ACK := True\<rparr>) 0"

definition sendFIN :: "handler \<Rightarrow> int \<Rightarrow> bool \<Rightarrow> handler" where
  "sendFIN h now withAck =
     sendToTun (h\<lparr>finalSeq := handler.sequence h + 1\<rparr>) now
       ((NewReplyPacket tcpHeaderLen 0)\<lparr>PSH := True, FIN := True, ACK := withAck\<rparr>) 1"

definition sendRST :: "handler \<Rightarrow> int \<Rightarrow> handler" where
  "sendRST h now =
     sendToTun (h\<lparr>finalSeq := handler.sequence h + 1\<rparr>) now
       ((NewReplyPacket tcpHeaderLen 0)\<lparr>RST := True\<rparr>) 1"

text \<open>\<open>copy(dst, src)\<close> on byte slices.\<close>

definition copy :: "u8 list \<Rightarrow> u8 list \<Rightarrow> u8 list" where
  "copy dst src = take (length dst) src @ drop (length src) dst"

definition prepareToResend :: "handler \<Rightarrow> Packet \<Rightarrow> Packet" where
  "prepareToResend h origPkt =
     (let pkt = newResponse h (PayloadLen origPkt)
      in pkt\<lparr>ACK := ACK origPkt, FIN := FIN origPkt, SYN := SYN origPkt,
              RST := RST origPkt, PSH := PSH origPkt,
              Sequence := Sequence origPkt, AckNumber := peerSequenceToAck h,
              WindowSize := ucast (drop_bit myWindowScale (receiveWindow h)),
              Payload := copy (Payload pkt) (Payload origPkt)\<rparr>)"

text \<open>
  \<open>setStopTimer\<close> arms or resets the TIME-WAIT timer; the firing of the timer is a later
  call of \<open>Stop\<close>.
\<close>

definition setStopTimer :: "handler \<Rightarrow> handler" where
  "setStopTimer h = h\<lparr>stopTimer := True\<rparr>"

fun stopLocked :: "handler \<Rightarrow> int \<Rightarrow> handler" where
  "stopLocked h now =
     (case state h of
        stateLastAck \<Rightarrow> hardStop h
      | stateTimeWait \<Rightarrow> hardStop h
      | stateClosed \<Rightarrow> hardStop h
      | stateCloseWait \<Rightarrow> sendFIN (setState h stateLastAck) now True
      | stateEstablished \<Rightarrow> sendFIN (setState h stateFinWait1) now True
      | stateSynReceived \<Rightarrow> sendFIN (setState h stateFinWait1) now True
      | _ \<Rightarrow> hardStop (sendRST h now))"

definition Stop :: "handler \<Rightarrow> int \<Rightarrow> handler" where
  "Stop h now = stopLocked h now"

section \<open>Retransmission\<close>

text \<open>
  The \<open>resends\<close> list of the source is a list of references to records of the ack-wait
  queue; here it is the list of their positions in the queue. The three outcomes for one
  record follow the source: skip (acknowledged, or deadline not reached), retransmit with
  \<open>retries\<close> incremented, or unlink. The unlink assigns \<open>el.next\<close> to the
  \<open>next\<close> link of the record that follows in \<open>resends\<close> (or to the queue head when
  there is none); when that record stands in front of \<open>el\<close> in the queue, the records
  from it up to \<open>el\<close> leave the list. When it does not, the links no longer form a
  list, which the result \<open>Unrepresented\<close> records, as it does for a position outside
  the queue.
\<close>

definition resendMsecs :: "handler \<Rightarrow> queueElement \<Rightarrow> int" where
  "resendMsecs h el =
     (let msecs = i64 (initialResendDelayMs * 2 ^ retries el)
      in if peerPermitsSACK h then i64 (msecs * 10) else msecs)"

definition resendDeadLine :: "handler \<Rightarrow> queueElement \<Rightarrow> int" where
  "resendDeadLine h el = i64 (cTime el + i64 (resendMsecs h el * 1000000))"

fun resend :: "handler \<Rightarrow> int \<Rightarrow> nat list \<Rightarrow> panic + handler" where
  "resend h now [] = Inr h"
| "resend h now (i # resends) =
     (if i \<ge> length (ackWaitQueue h) then Inl Unrepresented
      else (let el = ackWaitQueue h ! i;
                pkt = packet el;
                sq = Sequence pkt
            in if sq \<le> sequenceAcked h then resend h now resends
               else if now < resendDeadLine h el then resend h now resends
               else if retries el < maxResends
               then (let h1 = h\<lparr>ackWaitQueue :=
                                  (ackWaitQueue h)[i := el\<lparr>retries := retries el + 1\<rparr>]\<rparr>;
                         pkt' = prepareToResend h1 pkt
                     in resend (tunWriteUnlocked h1 pkt') now resends)
               else (let h1 = h\<lparr>errorLog := ResendGivingUp sq # errorLog h\<rparr>
                     in case resends of
                          [] \<Rightarrow>
                            resend (h1\<lparr>ackWaitQueue := drop (Suc i) (ackWaitQueue h1),
                                       ackWaitQueueSize := ackWaitQueueSize h1 - 1\<rparr>)
                              now resends
                        | j # _ \<Rightarrow>
                            if j < i \<and> list_all (\<lambda>k. k \<le> j) resends
                            then resend (h1\<lparr>ackWaitQueue :=
                                             take (Suc j) (ackWaitQueue h1) @
                                             drop (Suc i) (ackWaitQueue h1),
                                           ackWaitQueueSize := ackWaitQueueSize h1 - 1\<rparr>)
                                   now resends
                            else Inl Unrepresented)))"

text \<open>
  One tick of \<open>processResends\<close>: the queue is reversed into \<open>resends\<close>, oldest record
  first, and scanned.
\<close>

definition processResends :: "handler \<Rightarrow> int \<Rightarrow> panic + handler" where
  "processResends h now =
     (if state h = stateClosed then Inr h
      else resend h now (rev [0..<length (ackWaitQueue h)]))"

text \<open>
  \<open>onReceivedSACK\<close>. The loop over the blocks takes \<open>sacks[i:]\<close> as its argument; the
  inner loop marks the records of the gap with the time \<open>now\<close> and puts them in front
  of \<open>resends\<close>.
\<close>

definition inGap :: "u32 \<Rightarrow> u32 \<Rightarrow> queueElement \<Rightarrow> bool" where
  "inGap rightEdge leftEdge el =
     (queueElement.sequence el \<ge> rightEdge \<and> queueElement.sequence el < leftEdge)"

function sackBlocks ::
  "handler \<Rightarrow> int \<Rightarrow> u32 \<Rightarrow> u8 list \<Rightarrow> nat list \<Rightarrow> panic + handler \<times> nat list" where
  "sackBlocks h now rightEdge sacks resends =
     (if sacks = [] then Inr (h, resends)
      else (case Uint32 sacks of
              Inl e \<Rightarrow> Inl e
            | Inr leftEdge \<Rightarrow>
                (let q = ackWaitQueue h;
                     hits = filter (\<lambda>k. inGap rightEdge leftEdge (q ! k)) [0..<length q];
                     h1 = h\<lparr>ackWaitQueue :=
                              map (\<lambda>el. if inGap rightEdge leftEdge el
                                         then el\<lparr>cTime := now\<rparr> else el) q\<rparr>
                 in case Uint32 (drop 4 sacks) of
                      Inl e \<Rightarrow> Inl e
                    | Inr rightEdge1 \<Rightarrow>
                        sackBlocks h1 now rightEdge1 (drop 8 sacks) (rev hits @ resends))))"
  by pat_completeness auto
termination
  by (relation "measure (\<lambda>(h, now, rightEdge, sacks, resends). length sacks)") auto

definition onReceivedSACK :: "handler \<Rightarrow> int \<Rightarrow> u8 list \<Rightarrow> panic + handler" where
  "onReceivedSACK h now sacks =
     (let rightEdge = sequenceAcked h
      in case Uint32 sacks of
           Inl e \<Rightarrow> Inl e
         | Inr first \<Rightarrow>
             if rightEdge \<ge> first then Inr h
             else (case sackBlocks h now rightEdge sacks [] of
                     Inl e \<Rightarrow> Inl e
                   | Inr (h1, resends) \<Rightarrow> resend h1 now resends))"

text \<open>
  The loop of \<open>checkSACK\<close> over the option bytes. The result is \<open>None\<close> when the loop
  does not return, \<open>Some (Inl p)\<close> when it panics and \<open>Some (Inr h)\<close> when it returns.
  \<open>opts[2:]\<close> and \<open>opts[ol:]\<close> panic when the slice is shorter than the lower bound,
  \<open>opts[1]\<close> when it has fewer than two bytes.
\<close>

partial_function (option) checkSACK_loop ::
  "handler \<Rightarrow> int \<Rightarrow> u8 list \<Rightarrow> (panic + handler) option" where
  "checkSACK_loop h now opts =
     (if opts = [] then Some (Inr h)
      else (let opt = hd opts
            in case (if opt = selectiveAck
                     then (if length opts < 2 then Inl SliceBoundsOutOfRange
                           else onReceivedSACK h now (drop 2 opts))
                     else Inr h) of
                 Inl e \<Rightarrow> Some (Inl e)
               | Inr h1 \<Rightarrow>
                   if opt = endOfOptions then Some (Inr h1)
                   else if opt \<noteq> noOp \<and> length opts < 2 then Some (Inl IndexOutOfRange)
                   else (let ol = (if opt \<noteq> noOp then unat (opts ! 1) else 1)
                         in if ol > length opts then Some (Inl SliceBoundsOutOfRange)
                            else checkSACK_loop h1 now (drop ol opts))))"

declare checkSACK_loop.simps [code]

definition checkSACK :: "handler \<Rightarrow> int \<Rightarrow> Packet \<Rightarrow> (panic + handler) option" where
  "checkSACK h now tcpHeader =
     (if ACK tcpHeader then checkSACK_loop h now (OptionBytes tcpHeader) else Some (Inr h))"

section \<open>Inbound segments\<close>

text \<open>
  Modelled from the spec: \<open>sendToMgr\<close> is not in the handler's file. It "publishes an
  inbound packet's payload onto \<open>toMgrCh\<close>" and reports success to the caller; the
  hand-off fails when the wait for room on the channel is cancelled. The argument
  \<open>mgr\<close> says for which packets the hand-off succeeds.
\<close>

definition sendToMgr :: "(Packet \<Rightarrow> bool) \<Rightarrow> handler \<Rightarrow> Packet \<Rightarrow> bool \<times> handler" where
  "sendToMgr mgr h pkt =
     (if mgr pkt then (True, h\<lparr>toMgrCh := toMgrCh h @ [pkt]\<rparr>) else (False, h))"

text \<open>
  The loop of \<open>processOutOfOrderPackets\<close> over the records \<open>el, el.next, ...\<close>; the
  value that \<open>sendToMgr\<close> returns is not used.
\<close>

fun processOutOfOrderLoop ::
  "(Packet \<Rightarrow> bool) \<Rightarrow> handler \<Rightarrow> u32 \<Rightarrow> queueElement list \<Rightarrow> u32 \<times> handler" where
  "processOutOfOrderLoop mgr h seq [] = (seq, h)"
| "processOutOfOrderLoop mgr h seq (el # rest) =
     (if queueElement.sequence el \<noteq> seq then (seq, h)
      else (let payloadLen = length (Payload (packet el));
                seq1 = queueElement.sequence el + of_nat payloadLen;
                h1 = h\<lparr>oooQueue := rest\<rparr>;
                h2 = snd (sendToMgr mgr h1 (packet el))
            in processOutOfOrderLoop mgr h2 seq1 rest))"

definition processOutOfOrderPackets :: "(Packet \<Rightarrow> bool) \<Rightarrow> handler \<Rightarrow> u32 \<Rightarrow> handler" where
  "processOutOfOrderPackets mgr h seq =
     (case processOutOfOrderLoop mgr h seq (oooQueue h) of
        (seq1, h1) \<Rightarrow> h1\<lparr>lastKnown := seq1, peerSequenceToAck := seq1\<rparr>)"

definition handleSequenceEQ :: "(Packet \<Rightarrow> bool) \<Rightarrow> handler \<Rightarrow> int \<Rightarrow> Packet \<Rightarrow> handler" where
  "handleSequenceEQ mgr h now pkt =
     (let state0 = state h;
          payloadLen = PayloadLen pkt;
          sq = Sequence pkt
      in if payloadLen > 0
         then (case sendToMgr mgr h pkt of
                 (ok, h1) \<Rightarrow>
                   if ok
                   then (let h2 = processOutOfOrderPackets mgr h1 (sq + of_nat payloadLen);
                             h3 = sendACK h2 now
                         in h3\<lparr>lastKnown := peerSequenceAcked h3\<rparr>)
                   else h1)
         else if FIN pkt
         then (let h1 = h\<lparr>peerSequenceToAck := sq + 1\<rparr>
               in case state0 of
                    stateEstablished \<Rightarrow>
                      sendACK ((setState h1 stateCloseWait)\<lparr>toMgrChClosed := True\<rparr>) now
                  | stateFinWait1 \<Rightarrow>
                      (let h2 = sendACK h1 now
                       in if ACK pkt
                          then stopLocked (setState (setStopTimer h2) stateTimeWait) now
                          else setState h2 stateClosing)
                  | stateFinWait2 \<Rightarrow>
                      sendACK (stopLocked (setState (setStopTimer h1) stateTimeWait) now) now
                  | _ \<Rightarrow> h1)
         else (let an = AckNumber pkt
               in case state0 of
                    stateSynSent \<Rightarrow>
                      if SYN pkt then setState (sendACK h now) stateEstablished else h
                  | stateSynReceived \<Rightarrow> setState h stateEstablished
                  | stateLastAck \<Rightarrow>
                      if an = finalSeq h then stopLocked (setState h stateClosed) now else h
                  | stateClosing \<Rightarrow>
                      if an = finalSeq h
                      then stopLocked (setState (setStopTimer h) stateTimeWait) now
                      else h
                  | stateFinWait1 \<Rightarrow>
                      if an = finalSeq h then setState (setStopTimer h) stateFinWait2 else h
                  | _ \<Rightarrow> h))"

section \<open>Outbound send path\<close>

text \<open>
  \<open>awaitWindowSize\<close> registers the request, releases the mutex and waits. While the
  mutex is released, \<open>HandlePacket\<close> runs \<open>setAckAndPeerWindowSize\<close> for the
  segments that arrive: \<open>arrivals\<close> are their headers, in order of arrival, up to the
  moment at which the function has the mutex again. \<open>sel\<close> is the case that the
  \<open>select\<close> takes; the case \<open>doneClosed\<close> can only be taken when the \<open>done\<close>
  channel has been closed, and the result is \<open>None\<close> when it has not.
\<close>

datatype selected = ctxDone | doneClosed | timeAfter

definition awaitWindowSize ::
  "handler \<Rightarrow> int \<Rightarrow> Packet list \<Rightarrow> selected \<Rightarrow> (bool \<times> bool \<times> handler) option" where
  "awaitWindowSize h sz arrivals sel =
     (let h1 = h\<lparr>awaitWinSize := Some sz\<rparr>;
          h2 = foldl setAckAndPeerWindowSize h1 arrivals
      in case sel of
           ctxDone \<Rightarrow> Some (False, False, h2)
         | doneClosed \<Rightarrow>
             if awaitWinSize h2 = None then Some (state h2 \<noteq> stateClosed, False, h2)
             else None
         | timeAfter \<Rightarrow> Some (True, True, h2))"

text \<open>
  \<open>preparePackageFromPayload\<close>, called by \<open>processPayload\<close> with \<open>start < len(data)\<close>.
  The result is the returned index, the returned packet (\<open>None\<close> for nil) and the
  handler.
\<close>

definition preparePackageFromPayload ::
  "handler \<Rightarrow> int \<Rightarrow> u8 list \<Rightarrow> nat \<Rightarrow> Packet list \<Rightarrow> selected
     \<Rightarrow> (nat \<times> Packet option \<times> handler) option" where
  "preparePackageFromPayload h now data start arrivals sel =
     (let mxSeg = unat (peerMaxSegmentSize h);
          window = i64 (peerWindow h - uint (handler.sequence h - sequenceAcked h));
          n = length data;
          mxSend = (if n - start > mxSeg then mxSeg else n - start);
          minWin = int mxSend;
          waited =
            (if window < minWin
             then (case awaitWindowSize h minWin arrivals sel of
                     None \<Rightarrow> None
                   | Some (proceed, zwp, h1) \<Rightarrow>
                       Some (proceed, (if zwp then 1 else mxSend), h1))
             else Some (True, mxSend, h))
      in case waited of
           None \<Rightarrow> None
         | Some (proceed, mxSend, h) \<Rightarrow>
             if \<not> proceed then Some (0, None, h)
             else (let pkt = newResponse h mxSend;
                       end = start + mxSend;
                       pkt1 = pkt\<lparr>Payload := copy (Payload pkt) (take mxSend (drop start data)),
                                 ACK := True, PSH := (end = n)\<rparr>;
                       h1 = h\<lparr>peerWindow := i64 (peerWindow h - int mxSend)\<rparr>
                   in case prepareToSend h1 now pkt1 (of_nat mxSend) of
                        (ok, pkt2, h2) \<Rightarrow> Some (end, if ok then Some pkt2 else None, h2)))"

section \<open>Entry points\<close>

definition inReceiveWindow :: "handler \<Rightarrow> u32 \<Rightarrow> bool" where
  "inReceiveWindow h sq =
     (sq \<ge> peerSequenceAcked h \<and> sq < peerSequenceAcked h + receiveWindow h)"

text \<open>
  \<open>HandlePacket\<close>: an RST inside the receive window stops the handler; any other
  packet updates the acknowledged sequence and the peer window, and the \<open>select\<close>
  puts it on the inbound channel or, when the caller's context is done, may take the
  other case and discard it: \<open>discard\<close> says that it did. That the channel can be full
  is not modelled.
\<close>

definition HandlePacket :: "handler \<Rightarrow> bool \<Rightarrow> Packet \<Rightarrow> handler" where
  "HandlePacket h discard pkt =
     (if RST pkt \<and> inReceiveWindow h (Sequence pkt) then hardStop h
      else (let h1 = setAckAndPeerWindowSize h pkt
            in if discard then h1 else h1\<lparr>fromTun := fromTun h1 @ [pkt]\<rparr>))"

text \<open>
  The calls that can reach \<open>hardStop\<close>: a packet from the TUN device (an RST in the
  window stops the handler), a write to the TUN device (a failed write stops it),
  \<open>Stop\<close> (also the call of the TIME-WAIT timer), and \<open>hardStop\<close> itself.
\<close>

datatype call =
    callHandlePacket bool Packet
  | callTunWrite Packet
  | callStop int
  | callHardStop

fun perform :: "handler \<Rightarrow> call \<Rightarrow> handler" where
  "perform h (callHandlePacket discard pkt) = HandlePacket h discard pkt"
| "perform h (callTunWrite pkt) = tunWrite h pkt"
| "perform h (callStop now) = Stop h now"
| "perform h callHardStop = hardStop h"

section \<open>Properties\<close>

lemma i64_id: "- (2 ^ 63) \<le> x \<Longrightarrow> x < 2 ^ 63 \<Longrightarrow> i64 x = x"
  unfolding i64_def
  by (simp add: sint_sbintrunc' signed_take_bit_int_eq_self)

subsection \<open>State transitions\<close>

lemma setState_follows_table:
  "state h \<noteq> stateTimeWait \<Longrightarrow>
     (if s \<in> set (permitted (state h)) then setState h s = h\<lparr>state := s\<rparr>
      else setState h s = illegalStateTransition h s)"
  by (cases "state h"; cases s; simp add: setState_def)

lemma illegalStateTransition_state: "state (illegalStateTransition h s) = state h"
  by (simp add: illegalStateTransition_def)

text \<open>
  Claim C1. The claim says that \<open>setState\<close> only ever performs a transition of the
  table of section 4.1 and that, the table giving TIME-WAIT no successor, no call in
  TIME-WAIT changes the state. The switch of \<open>setState\<close> validates every state but
  TIME-WAIT: there the requested state is assigned unchecked. A handler in TIME-WAIT
  that is asked for ESTABLISHED ends in ESTABLISHED, a transition that the table does
  not list, and nothing is logged.
\<close>

theorem setState_TimeWait_unchecked:
  "state (setState (exHandler\<lparr>state := stateTimeWait\<rparr>) stateEstablished) = stateEstablished
   \<and> stateEstablished \<notin> set (permitted stateTimeWait)
   \<and> errorLog (setState (exHandler\<lparr>state := stateTimeWait\<rparr>) stateEstablished) = []"
  by (simp add: setState_def exHandler_def NewHandler_def)

subsection \<open>The remove callback\<close>

text \<open>
  The invariant of the callback: either the \<open>remove\<close> reference is still set and the
  callback has been invoked \<open>c\<close> times, or the reference is cleared, the callback has
  been invoked once more and the handler is CLOSED.
\<close>

lemma removed_hardStop:
  "(remove h \<and> removeCalls h = c) \<or> (\<not> remove h \<and> removeCalls h = Suc c \<and> state h = stateClosed)
   \<Longrightarrow> \<not> remove (hardStop h) \<and> removeCalls (hardStop h) = Suc c
       \<and> state (hardStop h) = stateClosed"
  by (auto simp: hardStop_def hardStopBody_def)

lemma removed_tunWrite:
  "(remove h \<and> removeCalls h = c) \<or> (\<not> remove h \<and> removeCalls h = Suc c \<and> state h = stateClosed)
   \<Longrightarrow> (remove (tunWrite h pkt) \<and> removeCalls (tunWrite h pkt) = c)
       \<or> (\<not> remove (tunWrite h pkt) \<and> removeCalls (tunWrite h pkt) = Suc c
           \<and> state (tunWrite h pkt) = stateClosed)"
  by (auto simp: tunWrite_def hardStop_def hardStopBody_def)

lemma removed_sendToTun:
  "(remove h \<and> removeCalls h = c) \<or> (\<not> remove h \<and> removeCalls h = Suc c \<and> state h = stateClosed)
   \<Longrightarrow> (remove (sendToTun h now pkt seqAdd) \<and> removeCalls (sendToTun h now pkt seqAdd) = c)
       \<or> (\<not> remove (sendToTun h now pkt seqAdd)
           \<and> removeCalls (sendToTun h now pkt seqAdd) = Suc c
           \<and> state (sendToTun h now pkt seqAdd) = stateClosed)"
  by (auto simp: sendToTun_def prepareToSend_def tunWriteUnlocked_def tunWrite_def
      hardStop_def hardStopBody_def Let_def)

lemma removed_stopLocked:
  assumes "(remove h \<and> removeCalls h = c)
           \<or> (\<not> remove h \<and> removeCalls h = Suc c \<and> state h = stateClosed)"
  shows "(remove (stopLocked h now) \<and> removeCalls (stopLocked h now) = c)
       \<or> (\<not> remove (stopLocked h now) \<and> removeCalls (stopLocked h now) = Suc c
           \<and> state (stopLocked h now) = stateClosed)"
proof (cases "remove h")
  case False
  with assms show ?thesis by (simp add: hardStop_def hardStopBody_def)
next
  case True
  with assms have c: "removeCalls h = c" by simp
  have fin: "(remove (sendFIN (setState h s) now w) \<and> removeCalls (sendFIN (setState h s) now w) = c)
       \<or> (\<not> remove (sendFIN (setState h s) now w)
           \<and> removeCalls (sendFIN (setState h s) now w) = Suc c
           \<and> state (sendFIN (setState h s) now w) = stateClosed)" for s w
    unfolding sendFIN_def
    by (rule removed_sendToTun)
       (use True c in \<open>simp add: setState_def illegalStateTransition_def\<close>)
  have "(remove (sendRST h now) \<and> removeCalls (sendRST h now) = c)
       \<or> (\<not> remove (sendRST h now) \<and> removeCalls (sendRST h now) = Suc c
           \<and> state (sendRST h now) = stateClosed)"
    unfolding sendRST_def by (rule removed_sendToTun) (use True c in simp)
  from removed_hardStop [OF this] have rst:
    "\<not> remove (hardStop (sendRST h now)) \<and> removeCalls (hardStop (sendRST h now)) = Suc c
       \<and> state (hardStop (sendRST h now)) = stateClosed" .
  from removed_hardStop [OF assms] have hs:
    "\<not> remove (hardStop h) \<and> removeCalls (hardStop h) = Suc c
       \<and> state (hardStop h) = stateClosed" .
  show ?thesis
    using fin rst hs by (cases "state h") simp_all
qed

lemma removed_perform:
  assumes "(remove h \<and> removeCalls h = c)
           \<or> (\<not> remove h \<and> removeCalls h = Suc c \<and> state h = stateClosed)"
  shows "(remove (perform h x) \<and> removeCalls (perform h x) = c)
       \<or> (\<not> remove (perform h x) \<and> removeCalls (perform h x) = Suc c
           \<and> state (perform h x) = stateClosed)"
proof (cases x)
  case (callHandlePacket discard pkt)
  have "remove (setAckAndPeerWindowSize h pkt) = remove h
      \<and> removeCalls (setAckAndPeerWindowSize h pkt) = removeCalls h
      \<and> state (setAckAndPeerWindowSize h pkt) = state h"
    by (simp add: setAckAndPeerWindowSize_def onReceivedACK_def Let_def split: option.splits)
  with assms removed_hardStop [OF assms] callHandlePacket show ?thesis
    by (simp add: HandlePacket_def Let_def)
next
  case (callTunWrite pkt)
  with removed_tunWrite [OF assms] show ?thesis by simp
next
  case (callStop now)
  with removed_stopLocked [OF assms] show ?thesis by (simp add: Stop_def)
next
  case callHardStop
  with removed_hardStop [OF assms] show ?thesis by simp
qed

lemma removed_foldl:
  "(remove h \<and> removeCalls h = c) \<or> (\<not> remove h \<and> removeCalls h = Suc c \<and> state h = stateClosed)
   \<Longrightarrow> (remove (foldl perform h cs) \<and> removeCalls (foldl perform h cs) = c)
       \<or> (\<not> remove (foldl perform h cs) \<and> removeCalls (foldl perform h cs) = Suc c
           \<and> state (foldl perform h cs) = stateClosed)"
proof (induction cs arbitrary: h)
  case Nil
  then show ?case by simp
next
  case (Cons x cs)
  from Cons.IH [OF removed_perform [OF Cons.prems]] show ?case by simp
qed

text \<open>
  Calls that do not overlap. For a handler whose \<open>remove\<close> reference is set, the first
  call of \<open>hardStop\<close> invokes the callback and enters CLOSED. After it, whatever calls
  follow one after the other through \<open>HandlePacket\<close>, \<open>tunWrite\<close>, \<open>Stop\<close> or
  \<open>hardStop\<close>, the callback is not invoked again, the handler stays CLOSED, and a
  further \<open>hardStop\<close> changes nothing.
\<close>

lemma hardStop_sequential_once:
  assumes "remove h"
  shows "removeCalls (hardStop h) = Suc (removeCalls h)
       \<and> state (hardStop h) = stateClosed
       \<and> removeCalls (foldl perform (hardStop h) cs) = Suc (removeCalls h)
       \<and> state (foldl perform (hardStop h) cs) = stateClosed
       \<and> hardStop (foldl perform (hardStop h) cs) = foldl perform (hardStop h) cs
       \<and> removeCalls (hardStop (foldl perform h cs)) = Suc (removeCalls h)"
proof -
  let ?c = "removeCalls h"
  from assms have start: "(remove h \<and> removeCalls h = ?c)
      \<or> (\<not> remove h \<and> removeCalls h = Suc ?c \<and> state h = stateClosed)"
    by simp
  from removed_hardStop [OF start] have first:
    "\<not> remove (hardStop h)" "removeCalls (hardStop h) = Suc ?c"
    "state (hardStop h) = stateClosed"
    by simp_all
  then have "(remove (hardStop h) \<and> removeCalls (hardStop h) = ?c)
      \<or> (\<not> remove (hardStop h) \<and> removeCalls (hardStop h) = Suc ?c
          \<and> state (hardStop h) = stateClosed)"
    by simp
  from removed_foldl [OF this, of cs] have after:
    "(remove (foldl perform (hardStop h) cs) \<and> removeCalls (foldl perform (hardStop h) cs) = ?c)
      \<or> (\<not> remove (foldl perform (hardStop h) cs)
          \<and> removeCalls (foldl perform (hardStop h) cs) = Suc ?c
          \<and> state (foldl perform (hardStop h) cs) = stateClosed)" .
  have mono: "\<not> remove (foldl perform g cs)" if "\<not> remove g" for g
    using that
  proof (induction cs arbitrary: g)
    case Nil
    then show ?case by simp
  next
    case (Cons x cs)
    have "\<not> remove (perform g x)"
    proof (cases x)
      case (callHandlePacket discard pkt)
      with Cons.prems show ?thesis
        by (simp add: HandlePacket_def hardStop_def hardStopBody_def setAckAndPeerWindowSize_def
            onReceivedACK_def Let_def split: option.splits)
    next
      case (callTunWrite pkt)
      with Cons.prems show ?thesis by (simp add: tunWrite_def hardStop_def hardStopBody_def)
    next
      case (callStop now)
      with Cons.prems show ?thesis
        by (cases "state g")
           (simp_all add: Stop_def hardStop_def hardStopBody_def sendFIN_def sendRST_def sendToTun_def
             prepareToSend_def tunWriteUnlocked_def tunWrite_def setState_def
             illegalStateTransition_def Let_def)
    next
      case callHardStop
      with Cons.prems show ?thesis by (simp add: hardStop_def hardStopBody_def)
    qed
    from Cons.IH [OF this] show ?case by simp
  qed
  from mono [OF first(1)] after have a:
    "\<not> remove (foldl perform (hardStop h) cs)"
    "removeCalls (foldl perform (hardStop h) cs) = Suc ?c"
    "state (foldl perform (hardStop h) cs) = stateClosed"
    by simp_all
  from a(1) have noop: "hardStop (foldl perform (hardStop h) cs) = foldl perform (hardStop h) cs"
    by (simp add: hardStop_def hardStopBody_def)
  from removed_hardStop [OF removed_foldl [OF start, of cs]]
  have last: "removeCalls (hardStop (foldl perform h cs)) = Suc ?c" by simp
  from first a noop last show ?thesis by simp
qed

lemma hardStopCalls_one: "fst (hardStopCalls h 1 [0, 0]) = hardStop h"
  by (simp add: hardStopCalls_def hardStop_def)

text \<open>
  Claim C7. The claim says that for every sequence of calls of \<open>hardStop\<close>, from RST
  receipt, TUN write failure, \<open>Stop\<close> or the TIME-WAIT timer, the callback is invoked
  exactly once. These calls come from different goroutines and none of them holds the
  mutex in \<open>hardStop\<close>, so two calls can overlap. When both read \<open>h.remove\<close> before
  either clears it (schedule \<open>[0, 1, 0, 1]\<close>), both find it set and both invoke the
  callback: it is invoked twice. When the second call starts after the first has
  returned (schedule \<open>[0, 0, 1, 1]\<close>) it is invoked once.
\<close>

theorem hardStop_overlapping_calls:
  "remove exHandler
   \<and> removeCalls exHandler = 0
   \<and> snd (hardStopCalls exHandler 2 [0, 1, 0, 1]) = [returned, returned]
   \<and> removeCalls (fst (hardStopCalls exHandler 2 [0, 1, 0, 1])) = 2
   \<and> snd (hardStopCalls exHandler 2 [0, 0, 1, 1]) = [returned, returned]
   \<and> removeCalls (fst (hardStopCalls exHandler 2 [0, 0, 1, 1])) = 1"
  by (simp add: hardStopCalls_def hardStopBody_def exHandler_def NewHandler_def
      numeral_2_eq_2)

subsection \<open>Ack-wait queue order\<close>

lemma takeWhile_desc:
  "descending q \<Longrightarrow> takeWhile (\<lambda>el. queueElement.sequence el > A) q = filter (\<lambda>el. queueElement.sequence el > A) q"
  unfolding descending_def
proof (induction q)
  case Nil then show ?case by simp
next
  case (Cons a q)
  show ?case
  proof (cases "queueElement.sequence a > A")
    case True
    with Cons show ?thesis by simp
  next
    case False
    with Cons.prems have "\<forall>b\<in>set q. \<not> queueElement.sequence b > A" by auto
    then have "filter (\<lambda>el. queueElement.sequence el > A) q = []" by (simp add: filter_empty_conv)
    with False show ?thesis by simp
  qed
qed

lemma onReceivedACK_queue:
  "ackWaitQueue (onReceivedACK h A) = takeWhile (\<lambda>el. queueElement.sequence el > A) (ackWaitQueue h)"
proof (cases "dropWhile (\<lambda>el. queueElement.sequence el > A) (ackWaitQueue h) = []")
  case True
  then have tw: "takeWhile (\<lambda>el. queueElement.sequence el > A) (ackWaitQueue h) = ackWaitQueue h"
    by (simp add: dropWhile_eq_Nil_conv takeWhile_eq_all_conv)
  show ?thesis by (simp add: onReceivedACK_def Let_def True tw del: dropWhile_eq_Nil_conv takeWhile_eq_all_conv)
next
  case False
  then show ?thesis by (simp add: onReceivedACK_def Let_def)
qed

lemma descending_filter: "descending q \<Longrightarrow> descending (filter P q)"
  by (simp add: descending_def sorted_wrt_filter)


lemma prepareToSend_queue:
  "0 < seqAdd \<Longrightarrow>
   ackWaitQueue (snd (snd (prepareToSend h now pkt seqAdd))) =
     \<lparr>queueElement.sequence = handler.sequence h + seqAdd, retries = 0, cTime = now,
      packet = fst (snd (prepareToSend h now pkt seqAdd))\<rparr> # ackWaitQueue h"
  by (simp add: prepareToSend_def Let_def)

lemma prepareToSend_sequence:
  "handler.sequence (snd (snd (prepareToSend h now pkt seqAdd))) = handler.sequence h + seqAdd"
  by (auto simp: prepareToSend_def Let_def word_gt_0)

lemma no_wrap_less:
  fixes a b :: u32
  assumes "0 < b" "unat a + unat b < 2 ^ 32"
  shows "a < a + b"
proof -
  have "unat (a + b) = unat a + unat b"
    using assms(2) by (simp add: unat_word_ariths)
  moreover have "0 < unat b" using assms(1) by (simp add: word_less_nat_alt)
  ultimately show ?thesis by (simp add: word_less_nat_alt)
qed


text \<open>
  Without a wrap the order is kept. For a strictly descending ack-wait queue and every
  ack number \<open>A\<close>, after \<open>onReceivedACK A\<close> the queue holds exactly the records whose
  sequence is greater than \<open>A\<close> and is strictly descending. \<open>prepareToSend\<close> with
  \<open>seqAdd > 0\<close> keeps the queue strictly descending and bounded by \<open>h.sequence\<close>
  when it was bounded by \<open>h.sequence\<close> and \<open>h.sequence + seqAdd\<close> does not wrap
  around \<open>2^32\<close>.
\<close>

lemma ackWaitQueue_descending_no_wrap:
  assumes "descending (ackWaitQueue h)"
  shows "set (ackWaitQueue (onReceivedACK h A)) =
           {el \<in> set (ackWaitQueue h). queueElement.sequence el > A}
    \<and> descending (ackWaitQueue (onReceivedACK h A))
    \<and> (0 < seqAdd \<and> unat (handler.sequence h) + unat seqAdd < 2 ^ 32
        \<and> (\<forall>el \<in> set (ackWaitQueue h). queueElement.sequence el \<le> handler.sequence h)
       \<longrightarrow> descending (ackWaitQueue (snd (snd (prepareToSend h now pkt seqAdd))))
          \<and> (\<forall>el \<in> set (ackWaitQueue h).
                queueElement.sequence el
                  < queueElement.sequence (hd (ackWaitQueue (snd (snd (prepareToSend h now pkt seqAdd))))))
          \<and> (\<forall>el \<in> set (ackWaitQueue (snd (snd (prepareToSend h now pkt seqAdd)))).
                queueElement.sequence el
                  \<le> handler.sequence (snd (snd (prepareToSend h now pkt seqAdd)))))"
proof -
  have q: "ackWaitQueue (onReceivedACK h A) =
             filter (\<lambda>el. queueElement.sequence el > A) (ackWaitQueue h)"
    by (simp add: onReceivedACK_queue takeWhile_desc [OF assms])
  have 1: "set (ackWaitQueue (onReceivedACK h A)) =
           {el \<in> set (ackWaitQueue h). queueElement.sequence el > A}"
    by (simp add: q)
  have 2: "descending (ackWaitQueue (onReceivedACK h A))"
    by (simp add: q descending_filter [OF assms])
  have 3: "descending (ackWaitQueue (snd (snd (prepareToSend h now pkt seqAdd))))
          \<and> (\<forall>el \<in> set (ackWaitQueue h).
                queueElement.sequence el
                  < queueElement.sequence (hd (ackWaitQueue (snd (snd (prepareToSend h now pkt seqAdd))))))
          \<and> (\<forall>el \<in> set (ackWaitQueue (snd (snd (prepareToSend h now pkt seqAdd)))).
                queueElement.sequence el
                  \<le> handler.sequence (snd (snd (prepareToSend h now pkt seqAdd))))"
    if pos: "0 < seqAdd" and nw: "unat (handler.sequence h) + unat seqAdd < 2 ^ 32"
      and bd: "\<forall>el \<in> set (ackWaitQueue h). queueElement.sequence el \<le> handler.sequence h"
  proof -
    have lt: "handler.sequence h < handler.sequence h + seqAdd"
      by (rule no_wrap_less [OF pos nw])
    have below: "\<forall>el \<in> set (ackWaitQueue h). queueElement.sequence el < handler.sequence h + seqAdd"
      using bd lt by auto
    then have le: "\<forall>el \<in> set (ackWaitQueue h). queueElement.sequence el \<le> handler.sequence h + seqAdd"
      by auto
    show ?thesis
      using assms below le
      by (simp add: prepareToSend_queue [OF pos] prepareToSend_sequence descending_def)
  qed
  from 1 2 3 show ?thesis by blast
qed


text \<open>
  Claim C2. The claim says that \<open>prepareToSend\<close> with \<open>seqAdd > 0\<close> keeps the
  ack-wait queue strictly descending by pushing a record whose sequence exceeds the
  previous head's, and \<open>onReceivedACK\<close> relies on it ("ack-queue is guaranteed to be
  sorted descending on sequence"). The pushed sequence is \<open>h.sequence + seqAdd\<close> in
  32-bit arithmetic and the records are compared as plain unsigned numbers. The handler
  has sent up to \<open>0xFFFFFFF0\<close>, everything before \<open>0xFFFFFFE0\<close> is acknowledged,
  and the queue holds the record \<open>0xFFFFFFF0\<close> of the segment of 16 bytes that starts
  at \<open>0xFFFFFFE0\<close>. Sending 32 bytes pushes a record of sequence \<open>0x10\<close>: it does
  not exceed the head's and the queue is no longer descending. When the peer then
  acknowledges \<open>0xFFFFFFF0\<close>, \<open>onReceivedACK\<close> stops at the head and cuts the whole
  queue, with the record of the 32 bytes that were never acknowledged.
\<close>

theorem prepareToSend_wrap_breaks_order:
  "descending [exElement 0xFFFFFFF0 0xFFFFFFE0 16 0]
   \<and> (0::u32) < 32
   \<and> map queueElement.sequence (ackWaitQueue (snd (snd (prepareToSend
         (exHandler\<lparr>handler.sequence := 0xFFFFFFF0, sequenceAcked := 0xFFFFFFE0,
                     ackWaitQueue := [exElement 0xFFFFFFF0 0xFFFFFFE0 16 0]\<rparr>)
         0 (exPacket 0 32) 32))))
       = [0x10, 0xFFFFFFF0]
   \<and> \<not> descending (ackWaitQueue (snd (snd (prepareToSend
         (exHandler\<lparr>handler.sequence := 0xFFFFFFF0, sequenceAcked := 0xFFFFFFE0,
                     ackWaitQueue := [exElement 0xFFFFFFF0 0xFFFFFFE0 16 0]\<rparr>)
         0 (exPacket 0 32) 32))))
   \<and> ackWaitQueue (onReceivedACK (snd (snd (prepareToSend
         (exHandler\<lparr>handler.sequence := 0xFFFFFFF0, sequenceAcked := 0xFFFFFFE0,
                     ackWaitQueue := [exElement 0xFFFFFFF0 0xFFFFFFE0 16 0]\<rparr>)
         0 (exPacket 0 32) 32))) 0xFFFFFFF0)
       = []"
  by (simp add: descending_def prepareToSend_def onReceivedACK_def Let_def exElement_def)

subsection \<open>Out-of-order queue order\<close>

lemma oooInsertPos_None: "oooInsertPos sq q = None \<Longrightarrow> sq \<in> queueElement.sequence ` set q"
  by (induction q) (auto split: if_splits)

lemma oooInsertPos_Some:
  "ascending q \<Longrightarrow> oooInsertPos sq q = Some k \<Longrightarrow>
     take k q = filter (\<lambda>el. queueElement.sequence el < sq) q \<and>
     drop k q = filter (\<lambda>el. queueElement.sequence el > sq) q \<and> sq \<notin> queueElement.sequence ` set q"
proof (induction q arbitrary: k)
  case Nil then show ?case by simp
next
  case (Cons a q)
  show ?case
  proof (cases "queueElement.sequence a > sq")
    case True
    with Cons.prems have "\<forall>b\<in>set q. queueElement.sequence b > sq" by (auto simp: ascending_def)
    then have *: "filter (\<lambda>el. queueElement.sequence el < sq) q = []" "filter (\<lambda>el. queueElement.sequence el > sq) q = q"
      by (auto simp: filter_empty_conv filter_id_conv)
    from True have ne: "queueElement.sequence a \<noteq> sq" "\<not> queueElement.sequence a < sq" by auto
    with True Cons.prems have "k = 0" by simp
    moreover from \<open>\<forall>b\<in>set q. queueElement.sequence b > sq\<close> have "sq \<notin> queueElement.sequence ` set q" by auto
    ultimately show ?thesis using True ne * by simp
  next
    case False
    with Cons.prems obtain k' where k': "oooInsertPos sq q = Some k'" "k = Suc k'" "queueElement.sequence a < sq"
      by (auto split: if_splits)
    from Cons.prems have "ascending q" by (simp add: ascending_def)
    from Cons.IH [OF this k'(1)] k' show ?thesis by auto
  qed
qed


lemma ascending_insert:
  "ascending q \<Longrightarrow>
   ascending (filter (\<lambda>el. queueElement.sequence el < sq) q @
              pl\<lparr>queueElement.sequence := sq\<rparr> # filter (\<lambda>el. queueElement.sequence el > sq) q)"
  by (auto simp: ascending_def sorted_wrt_append sorted_wrt_filter)


text \<open>
  Claim C8. For a strictly ascending out-of-order queue, \<open>addOutOfOrderPacket\<close>
  leaves a strictly ascending queue: when the packet's sequence already occurs the
  handler is unchanged, and otherwise the new record stands between the records of
  smaller and the records of greater sequence.
\<close>

theorem addOutOfOrderPacket_ascending:
  assumes "ascending (oooQueue h)"
  shows "ascending (oooQueue (addOutOfOrderPacket h now pkt))
    \<and> (Sequence pkt \<in> queueElement.sequence ` set (oooQueue h) \<longrightarrow>
         addOutOfOrderPacket h now pkt = h)
    \<and> (Sequence pkt \<notin> queueElement.sequence ` set (oooQueue h) \<longrightarrow>
         oooQueue (addOutOfOrderPacket h now pkt) =
           filter (\<lambda>el. queueElement.sequence el < Sequence pkt) (oooQueue h) @
           \<lparr>queueElement.sequence = Sequence pkt, retries = 0, cTime = now, packet = pkt\<rparr> #
           filter (\<lambda>el. queueElement.sequence el > Sequence pkt) (oooQueue h))"
proof (cases "oooInsertPos (Sequence pkt) (oooQueue h)")
  case None
  then have "Sequence pkt \<in> queueElement.sequence ` set (oooQueue h)"
    by (rule oooInsertPos_None)
  moreover from None have "addOutOfOrderPacket h now pkt = h"
    by (simp add: addOutOfOrderPacket_def)
  ultimately show ?thesis using assms by simp
next
  case (Some k)
  note pos = oooInsertPos_Some [OF assms Some]
  let ?pl = "\<lparr>queueElement.sequence = Sequence pkt, retries = 0, cTime = now, packet = pkt\<rparr>"
  have q': "oooQueue (addOutOfOrderPacket h now pkt) =
           filter (\<lambda>el. queueElement.sequence el < Sequence pkt) (oooQueue h) @
           ?pl # filter (\<lambda>el. queueElement.sequence el > Sequence pkt) (oooQueue h)"
    using Some pos by (simp add: addOutOfOrderPacket_def Let_def)
  have "ascending (oooQueue (addOutOfOrderPacket h now pkt))"
    using ascending_insert [OF assms, of "Sequence pkt" ?pl] q' by simp
  with q' pos show ?thesis by simp
qed


theorem addOutOfOrderPacket_ascending_witness:
  "ascending [exElement 100 100 10 1, exElement 300 300 10 2]
   \<and> map queueElement.sequence (oooQueue (addOutOfOrderPacket
         (exHandler\<lparr>oooQueue := [exElement 100 100 10 1, exElement 300 300 10 2]\<rparr>)
         3 (exPacket 200 10)))
       = [100, 200, 300]
   \<and> ascending (oooQueue (addOutOfOrderPacket
         (exHandler\<lparr>oooQueue := [exElement 100 100 10 1, exElement 300 300 10 2]\<rparr>)
         3 (exPacket 200 10)))
   \<and> addOutOfOrderPacket
         (exHandler\<lparr>oooQueue := [exElement 100 100 10 1, exElement 300 300 10 2]\<rparr>)
         3 (exPacket 300 10)
       = exHandler\<lparr>oooQueue := [exElement 100 100 10 1, exElement 300 300 10 2]\<rparr>"
proof -
  let ?h = "exHandler\<lparr>oooQueue := [exElement 100 100 10 1, exElement 300 300 10 2]\<rparr>"
  have a: "ascending (oooQueue ?h)"
    by (simp add: ascending_def exElement_def)
  have m: "map queueElement.sequence (oooQueue (addOutOfOrderPacket ?h 3 (exPacket 200 10)))
       = [100, 200, 300]"
    by (simp add: addOutOfOrderPacket_def Let_def exElement_def exPacket_def)
  have dup: "Sequence (exPacket 300 10) \<in> queueElement.sequence ` set (oooQueue ?h)"
    by (simp add: exElement_def exPacket_def)
  from addOutOfOrderPacket_ascending [OF a, of 3 "exPacket 200 10"]
  have 1: "ascending (oooQueue (addOutOfOrderPacket ?h 3 (exPacket 200 10)))" by blast
  from addOutOfOrderPacket_ascending [OF a, of 3 "exPacket 300 10"] dup
  have 2: "addOutOfOrderPacket ?h 3 (exPacket 300 10) = ?h" by blast
  from a m 1 2 show ?thesis by simp
qed

subsection \<open>Acknowledged sequence\<close>

text \<open>
  Claim C9, as it is stated, fails: \<open>onReceivedACK\<close> stores the peer's ack number
  without comparing it with \<open>h.sequence\<close>. A handler with \<open>sequence = 1000\<close> and
  \<open>sequenceAcked = 1000\<close> that receives an ACK with ack number 5000 ends with
  \<open>sequenceAcked = 5000 > sequence\<close>.
\<close>

theorem setAckAndPeerWindowSize_counterexample:
  "sequenceAcked (exHandler\<lparr>handler.sequence := 1000, sequenceAcked := 1000\<rparr>)
     \<le> handler.sequence (exHandler\<lparr>handler.sequence := 1000, sequenceAcked := 1000\<rparr>)
   \<and> ACK ((exPacket 1 0)\<lparr>AckNumber := 5000\<rparr>)
   \<and> AckNumber ((exPacket 1 0)\<lparr>AckNumber := 5000\<rparr>) \<noteq> 0
   \<and> \<not> sequenceAcked (setAckAndPeerWindowSize
            (exHandler\<lparr>handler.sequence := 1000, sequenceAcked := 1000\<rparr>)
            ((exPacket 1 0)\<lparr>AckNumber := 5000\<rparr>))
        \<le> handler.sequence (setAckAndPeerWindowSize
            (exHandler\<lparr>handler.sequence := 1000, sequenceAcked := 1000\<rparr>)
            ((exPacket 1 0)\<lparr>AckNumber := 5000\<rparr>))"
  by (simp add: setAckAndPeerWindowSize_def onReceivedACK_def Let_def exPacket_def
      exHandler_def NewHandler_def NewReplyPacket_def)

text \<open>
  Claim C9, amended. Processing an inbound ACK whose ack number \<open>A\<close> is not zero sets
  \<open>sequenceAcked\<close> to \<open>A\<close> and leaves \<open>sequence\<close> unchanged; so
  \<open>sequenceAcked \<le> sequence\<close> holds afterwards exactly when \<open>A \<le> sequence\<close>, that is
  when the peer acknowledges nothing beyond what the handler has sent.
\<close>

theorem setAckAndPeerWindowSize_sequenceAcked:
  assumes "ACK p" and "AckNumber p \<noteq> 0"
  shows "sequenceAcked (setAckAndPeerWindowSize h p) = AckNumber p
    \<and> handler.sequence (setAckAndPeerWindowSize h p) = handler.sequence h
    \<and> (sequenceAcked (setAckAndPeerWindowSize h p) \<le> handler.sequence (setAckAndPeerWindowSize h p)
         \<longleftrightarrow> AckNumber p \<le> handler.sequence h)"
  using assms
  by (simp add: setAckAndPeerWindowSize_def onReceivedACK_def Let_def split: option.splits)


theorem setAckAndPeerWindowSize_sequenceAcked_witness:
  "ACK ((exPacket 1 0)\<lparr>AckNumber := 900\<rparr>)
   \<and> AckNumber ((exPacket 1 0)\<lparr>AckNumber := 900\<rparr>) \<noteq> 0
   \<and> sequenceAcked (setAckAndPeerWindowSize
        (exHandler\<lparr>handler.sequence := 1000, sequenceAcked := 500\<rparr>)
        ((exPacket 1 0)\<lparr>AckNumber := 900\<rparr>)) = 900
   \<and> sequenceAcked (setAckAndPeerWindowSize
        (exHandler\<lparr>handler.sequence := 1000, sequenceAcked := 500\<rparr>)
        ((exPacket 1 0)\<lparr>AckNumber := 900\<rparr>))
      \<le> handler.sequence (setAckAndPeerWindowSize
        (exHandler\<lparr>handler.sequence := 1000, sequenceAcked := 500\<rparr>)
        ((exPacket 1 0)\<lparr>AckNumber := 900\<rparr>))"
proof -
  let ?p = "(exPacket 1 0)\<lparr>AckNumber := 900\<rparr>"
  let ?h = "exHandler\<lparr>handler.sequence := 1000, sequenceAcked := 500\<rparr>"
  have a: "ACK ?p" by (simp add: exPacket_def)
  have n: "AckNumber ?p \<noteq> 0" by simp
  have le: "AckNumber ?p \<le> handler.sequence ?h" by simp
  from setAckAndPeerWindowSize_sequenceAcked [OF a n, of ?h] le a n
  show ?thesis by simp
qed

subsection \<open>Scanning the options of an inbound ACK\<close>

lemma checkSACK_loop_zero_length_step:
  assumes "checkSACK_loop h now opts = Some r"
    and "k \<noteq> endOfOptions" and "k \<noteq> noOp" and "k \<noteq> selectiveAck"
  shows "opts \<noteq> k # 0 # rest"
  using assms(1)
proof (induction arbitrary: h r rule: checkSACK_loop.raw_induct [rotated 1, consumes 1])
  case (1 loop h now opts r)
  show ?case
  proof
    assume eq: "opts = k # 0 # rest"
    with 1(2) assms(2-4) have "loop h now opts = Some r"
      by (simp add: Let_def)
    from 1(1) [OF this] eq show False by simp
  qed
qed

lemma checkSACK_loop_zero_length:
  assumes "k \<noteq> endOfOptions" and "k \<noteq> noOp" and "k \<noteq> selectiveAck"
  shows "checkSACK_loop h now (k # 0 # rest) = None"
proof (cases "checkSACK_loop h now (k # 0 # rest)")
  case None
  then show ?thesis .
next
  case (Some r)
  from checkSACK_loop_zero_length_step [OF Some assms, where rest = rest] show ?thesis by simp
qed

lemma checkSACK_loop_length_too_large:
  assumes "k \<noteq> endOfOptions" and "k \<noteq> noOp" and "k \<noteq> selectiveAck"
    and "unat l > Suc (Suc (length rest))"
  shows "checkSACK_loop h now (k # l # rest) = Some (Inl SliceBoundsOutOfRange)"
  using assms by (subst checkSACK_loop.simps) (simp add: Let_def)

text \<open>
  Claim C10. The claim says that the option loop of \<open>checkSACK\<close> terminates and stays
  inside the option bytes for every option area. The loop advances by the length byte
  of the option without checking it. For the options \<open>[2, 0, 0, 0]\<close> (kind 2 with a
  length byte of zero) the slice never gets shorter and the loop does not return; for
  \<open>[3, 9, 0, 0]\<close> (a length byte larger than what is left) the slice expression
  \<open>opts[ol:]\<close> is out of range and the function panics.
\<close>

theorem checkSACK_malformed_option:
  "checkSACK exHandler 0 ((exPacket 1 0)\<lparr>OptionBytes := [2, 0, 0, 0]\<rparr>) = None
   \<and> checkSACK exHandler 0 ((exPacket 1 0)\<lparr>OptionBytes := [3, 9, 0, 0]\<rparr>)
       = Some (Inl SliceBoundsOutOfRange)"
proof -
  have k2: "(2::u8) \<noteq> endOfOptions" "(2::u8) \<noteq> noOp" "(2::u8) \<noteq> selectiveAck"
    by (simp_all add: endOfOptions_def noOp_def selectiveAck_def)
  have k3: "(3::u8) \<noteq> endOfOptions" "(3::u8) \<noteq> noOp" "(3::u8) \<noteq> selectiveAck"
    by (simp_all add: endOfOptions_def noOp_def selectiveAck_def)
  have a: "ACK ((exPacket 1 0)\<lparr>OptionBytes := opts\<rparr>)" for opts
    by (simp add: exPacket_def)
  have 1: "checkSACK_loop exHandler 0 [2, 0, 0, 0] = None"
    by (rule checkSACK_loop_zero_length [OF k2])
  have 2: "checkSACK_loop exHandler 0 [3, 9, 0, 0] = Some (Inl SliceBoundsOutOfRange)"
    by (rule checkSACK_loop_length_too_large [OF k3]) simp
  from 1 2 a show ?thesis by (simp add: checkSACK_def)
qed

subsection \<open>Hand-off to the manager and the ack number\<close>

lemma handleSequenceEQ_handoff_failed:
  "0 < PayloadLen pkt \<Longrightarrow> \<not> mgr pkt \<Longrightarrow> handleSequenceEQ mgr h now pkt = h"
  by (simp add: handleSequenceEQ_def sendToMgr_def Let_def)

text \<open>
  Claim C6. For the in-order segment the claim holds: when the hand-off fails the
  handler is unchanged (\<open>handleSequenceEQ_handoff_failed\<close>). For the segments drained
  from the out-of-order queue it does not: \<open>processOutOfOrderPackets\<close> drops the value
  that \<open>sendToMgr\<close> returns. An established handler that expects sequence 1000 and
  holds the out-of-order segment 1100..1199 receives the segment 1000..1099; the
  hand-off of that segment succeeds and the hand-off of the queued segment fails. The
  queued segment is removed from the queue, only the first segment is on the manager
  channel, and \<open>peerSequenceToAck\<close> is 1200, past the payload that was not handed off.
\<close>

theorem processOutOfOrderPackets_ignores_handoff:
  "\<not> fst (sendToMgr (\<lambda>p. Sequence p = 1000) exHandler (exPacket 1100 100))
   \<and> toMgrCh (handleSequenceEQ (\<lambda>p. Sequence p = 1000)
        (exHandler\<lparr>state := stateEstablished, peerSequenceToAck := 1000,
                    peerSequenceAcked := 1000, lastKnown := 1000,
                    oooQueue := [exElement 1100 1100 100 5]\<rparr>)
        7 (exPacket 1000 100)) = [exPacket 1000 100]
   \<and> oooQueue (handleSequenceEQ (\<lambda>p. Sequence p = 1000)
        (exHandler\<lparr>state := stateEstablished, peerSequenceToAck := 1000,
                    peerSequenceAcked := 1000, lastKnown := 1000,
                    oooQueue := [exElement 1100 1100 100 5]\<rparr>)
        7 (exPacket 1000 100)) = []
   \<and> peerSequenceToAck (handleSequenceEQ (\<lambda>p. Sequence p = 1000)
        (exHandler\<lparr>state := stateEstablished, peerSequenceToAck := 1000,
                    peerSequenceAcked := 1000, lastKnown := 1000,
                    oooQueue := [exElement 1100 1100 100 5]\<rparr>)
        7 (exPacket 1000 100)) = 1200"
  by (simp add: handleSequenceEQ_def sendToMgr_def processOutOfOrderPackets_def Let_def
      sendACK_def sendToTun_def prepareToSend_def tunWriteUnlocked_def tunWrite_def
      newResponse_def PayloadLen_def exElement_def exPacket_def exHandler_def
      NewHandler_def NewReplyPacket_def)

subsection \<open>Retransmission scan\<close>

text \<open>
  The deadline of a record, for time stamps and retry counts in the range that occurs:
  the creation time plus 200 ms times \<open>2 ^ retries\<close>, in nanoseconds, times 10 when
  the peer permits SACK.
\<close>

lemma resendDeadLine_value:
  assumes "retries el \<le> 7" and "- (2 ^ 62) \<le> cTime el" and "cTime el < 2 ^ 62"
  shows "resendDeadLine h el =
           cTime el + 200000000 * 2 ^ retries el * (if peerPermitsSACK h then 10 else 1)"
proof -
  define p :: int where "p = 2 ^ retries el"
  have "(2::int) ^ retries el \<le> 2 ^ 7"
    using assms(1) by (intro power_increasing) simp_all
  then have p: "1 \<le> p" "p \<le> 128" by (simp_all add: p_def)
  show ?thesis
    unfolding resendDeadLine_def resendMsecs_def initialResendDelayMs_def Let_def p_def [symmetric]
    using p assms(2,3) by (simp add: i64_id)
qed

lemma processResends_one_record:
  assumes "state h \<noteq> stateClosed" and "ackWaitQueue h = [el]"
  shows "processResends h now =
     (if Sequence (packet el) \<le> sequenceAcked h \<or> now < resendDeadLine h el then Inr h
      else if retries el < maxResends
      then Inr (tunWriteUnlocked (h\<lparr>ackWaitQueue := [el\<lparr>retries := retries el + 1\<rparr>]\<rparr>)
             (prepareToResend (h\<lparr>ackWaitQueue := [el\<lparr>retries := retries el + 1\<rparr>]\<rparr>)
                (packet el)))
      else Inr (h\<lparr>errorLog := ResendGivingUp (Sequence (packet el)) # errorLog h,
                  ackWaitQueue := [], ackWaitQueueSize := ackWaitQueueSize h - 1\<rparr>))"
  using assms by (simp add: processResends_def Let_def)

text \<open>
  Claim C4. The scan decides whether a record is acknowledged by comparing the sequence
  in the header of the queued packet, which is the first byte of the segment, with
  \<open>sequenceAcked\<close>, while the record's \<open>sequence\<close> is the sequence after the segment.
  The oldest unacknowledged segment starts exactly at \<open>sequenceAcked\<close>: a record with
  sequence 1100 for the segment 1000..1099, with \<open>sequenceAcked = 1000\<close>, is above
  \<open>sequenceAcked\<close>, and 1000 seconds after its creation the deadline of 200 ms has
  long passed. The scan skips it as acknowledged: nothing is written, the record keeps
  \<open>retries = 0\<close>; and with \<open>retries = 7\<close> the record is not unlinked either.
\<close>

theorem resend_skips_oldest_unacked:
  "sequenceAcked (exHandler\<lparr>state := stateEstablished, handler.sequence := 1100,
       sequenceAcked := 1000, ackWaitQueueSize := 1,
       ackWaitQueue := [exElement 1100 1000 100 0]\<rparr>)
     < queueElement.sequence (exElement 1100 1000 100 0)
   \<and> resendDeadLine exHandler (exElement 1100 1000 100 0) = 200000000
   \<and> processResends
        (exHandler\<lparr>state := stateEstablished, handler.sequence := 1100,
           sequenceAcked := 1000, ackWaitQueueSize := 1,
           ackWaitQueue := [exElement 1100 1000 100 0]\<rparr>) 1000000000000
      = Inr (exHandler\<lparr>state := stateEstablished, handler.sequence := 1100,
           sequenceAcked := 1000, ackWaitQueueSize := 1,
           ackWaitQueue := [exElement 1100 1000 100 0]\<rparr>)
   \<and> processResends
        (exHandler\<lparr>state := stateEstablished, handler.sequence := 1100,
           sequenceAcked := 1000, ackWaitQueueSize := 1,
           ackWaitQueue := [(exElement 1100 1000 100 0)\<lparr>retries := 7\<rparr>]\<rparr>) 1000000000000
      = Inr (exHandler\<lparr>state := stateEstablished, handler.sequence := 1100,
           sequenceAcked := 1000, ackWaitQueueSize := 1,
           ackWaitQueue := [(exElement 1100 1000 100 0)\<lparr>retries := 7\<rparr>]\<rparr>)"
  by (simp add: processResends_def resendDeadLine_def resendMsecs_def i64_def
      initialResendDelayMs_def exElement_def exPacket_def exHandler_def NewHandler_def)

subsection \<open>Window check of the send path\<close>

lemma length_copy: "length (copy dst src) = length dst"
  by (simp add: copy_def)

lemma Payload_newResponse: "length (Payload (newResponse h n)) = n"
  by (simp add: newResponse_def NewReplyPacket_def Let_def split: list.splits prod.splits)

lemma preparePackageFromPayload_no_wait:
  assumes "- (2 ^ 62) \<le> peerWindow h" and "peerWindow h < 2 ^ 62"
    and nw: "\<not> i64 (peerWindow h - uint (handler.sequence h - sequenceAcked h))
            < int (if length data - start > unat (peerMaxSegmentSize h)
                   then unat (peerMaxSegmentSize h) else length data - start)"
  shows "\<exists>e pkt h'. preparePackageFromPayload h now data start arrivals sel = Some (e, Some pkt, h')
     \<and> Sequence pkt = handler.sequence h
     \<and> uint (handler.sequence h - sequenceAcked h) + int (PayloadLen pkt) \<le> peerWindow h"
proof -
  define d where "d = uint (handler.sequence h - sequenceAcked h)"
  have lo: "0 \<le> d" by (simp add: d_def)
  have hi: "d < 2 ^ 32"
    using uint_bounded [of "handler.sequence h - sequenceAcked h"] by (simp add: d_def)
  have "i64 (peerWindow h - d) = peerWindow h - d"
  proof (rule i64_id)
    show "- (2 ^ 63) \<le> peerWindow h - d" using assms(1) hi by simp
    show "peerWindow h - d < 2 ^ 63" using assms(2) lo by simp
  qed
  then have id: "i64 (peerWindow h - uint (handler.sequence h - sequenceAcked h))
      = peerWindow h - uint (handler.sequence h - sequenceAcked h)"
    by (simp add: d_def)
  from nw have nw': "\<not> peerWindow h - uint (handler.sequence h - sequenceAcked h)
            < int (if length data - start > unat (peerMaxSegmentSize h)
                   then unat (peerMaxSegmentSize h) else length data - start)"
    unfolding id .
  show ?thesis
    using nw'
    by (simp add: preparePackageFromPayload_def Let_def prepareToSend_def PayloadLen_def
        length_copy Payload_newResponse id split: prod.splits)
qed

lemma preparePackageFromPayload_probe:
  assumes "i64 (peerWindow h - uint (handler.sequence h - sequenceAcked h))
            < int (if length data - start > unat (peerMaxSegmentSize h)
                   then unat (peerMaxSegmentSize h) else length data - start)"
  shows "\<exists>pkt h'. preparePackageFromPayload h now data start arrivals timeAfter
                    = Some (start + 1, Some pkt, h')
     \<and> PayloadLen pkt = 1"
  using assms
  by (simp add: preparePackageFromPayload_def awaitWindowSize_def Let_def prepareToSend_def
      PayloadLen_def length_copy Payload_newResponse split: prod.splits)

text \<open>
  Claim C3. When the window is large enough at the check, the emitted segment respects
  it (\<open>preparePackageFromPayload_no_wait\<close>), and after the 3 second timeout a probe of
  one byte is sent (\<open>preparePackageFromPayload_probe\<close>). After a wake-up, however, the window is not looked at again. The
  handler has everything acknowledged (\<open>sequence = sequenceAcked = 1000\<close>), a peer
  window of 0 and six bytes to send with a maximum segment size of 4, so the sender
  waits for a window of 4. While the mutex is released two ACKs arrive: the first opens
  the window to 4, which closes the \<open>done\<close> channel, and the second (ack number 1000,
  window 0) sets the window back to 0. When the sender has the mutex again the window
  is 0, and it emits a segment of four bytes, not a one-byte probe:
  \<open>sequence + payloadLen - sequenceAcked = 4 > 0 = peerWindow\<close>.
\<close>

theorem preparePackageFromPayload_stale_window:
  "foldl setAckAndPeerWindowSize
      (exHandler\<lparr>state := stateEstablished, handler.sequence := 1000, sequenceAcked := 1000,
                  peerWindow := 0, peerMaxSegmentSize := 4, awaitWinSize := Some 4\<rparr>)
      [(exPacket 1 0)\<lparr>AckNumber := 1000, WindowSize := 4\<rparr>,
       (exPacket 1 0)\<lparr>AckNumber := 1000, WindowSize := 0\<rparr>]
     = exHandler\<lparr>state := stateEstablished, handler.sequence := 1000, sequenceAcked := 1000,
                  peerWindow := 0, peerMaxSegmentSize := 4, awaitWinSize := None\<rparr>
   \<and> map_option (\<lambda>(e, p, h). (e, map_option (\<lambda>p. (Sequence p, Payload p)) p, peerWindow h))
       (preparePackageFromPayload
         (exHandler\<lparr>state := stateEstablished, handler.sequence := 1000, sequenceAcked := 1000,
                     peerWindow := 0, peerMaxSegmentSize := 4\<rparr>)
         7 [1, 2, 3, 4, 5, 6] 0
         [(exPacket 1 0)\<lparr>AckNumber := 1000, WindowSize := 4\<rparr>,
          (exPacket 1 0)\<lparr>AckNumber := 1000, WindowSize := 0\<rparr>]
         doneClosed)
     = Some (4, Some (1000, [1, 2, 3, 4]), - 4)"
  by (simp add: preparePackageFromPayload_def awaitWindowSize_def setAckAndPeerWindowSize_def
      onReceivedACK_def prepareToSend_def newResponse_def copy_def i64_def Let_def
      exPacket_def exHandler_def NewHandler_def NewReplyPacket_def)

subsection \<open>SACK blocks of a reply\<close>

lemma runs_Nil_iff: "runs q = [] \<longleftrightarrow> q = []"
  by (cases q) (auto split: list.splits)

lemma concat_runs: "concat (runs q) = q"
  by (induction q) (auto split: list.splits)

lemma runs_nonempty: "r \<in> set (runs q) \<Longrightarrow> r \<noteq> []"
  by (induction q arbitrary: r) (auto split: list.splits if_splits)

lemma hd_hd_runs: "hd (hd (runs (a # q))) = a"
  by (auto split: list.splits)

lemma runs_contiguous: "r \<in> set (runs q) \<Longrightarrow> successively contiguous r"
proof (induction q arbitrary: r)
  case Nil
  then show ?case by simp
next
  case (Cons a q)
  show ?case
  proof (cases "runs q")
    case Nil
    with Cons.prems show ?thesis by simp
  next
    case (Cons r' rs)
    then have "r' \<noteq> []" using runs_nonempty [of r' q] by simp
    then obtain b r'' where r': "r' = b # r''" by (cases r') auto
    from Cons.IH Cons have ih: "\<And>x. x \<in> set (r' # rs) \<Longrightarrow> successively contiguous x"
      by simp
    from Cons.prems Cons r' ih show ?thesis
      by (auto split: if_splits)
  qed
qed

lemma runs_maximal:
  "Suc k < length (runs q) \<Longrightarrow> \<not> contiguous (last (runs q ! k)) (hd (runs q ! Suc k))"
proof (induction q arbitrary: k)
  case Nil
  then show ?case by simp
next
  case (Cons a q)
  show ?case
  proof (cases "runs q")
    case Nil
    with Cons.prems show ?thesis by simp
  next
    case rq: (Cons r rs)
    then have ne: "r \<noteq> []" using runs_nonempty [of r q] by simp
    show ?thesis
    proof (cases "contiguous a (hd r)")
      case True
      with rq have eq: "runs (a # q) = (a # r) # rs" by simp
      show ?thesis
      proof (cases k)
        case 0
        with Cons.prems eq rq have "Suc 0 < length (runs q)" by simp
        from Cons.IH [OF this] rq ne eq 0 show ?thesis by simp
      next
        case (Suc k')
        with Cons.prems eq rq have "Suc k < length (runs q)" by simp
        from Cons.IH [OF this] rq eq Suc show ?thesis by simp
      qed
    next
      case False
      with rq have eq: "runs (a # q) = [a] # r # rs" by simp
      show ?thesis
      proof (cases k)
        case 0
        with False eq show ?thesis by simp
      next
        case (Suc k')
        with Cons.prems eq rq have "Suc k' < length (runs q)" by simp
        from Cons.IH [OF this] rq eq Suc show ?thesis by simp
      qed
    qed
  qed
qed

lemma Max_insert_max:
  fixes a b :: int
  assumes "finite S"
  shows "Max (insert (max a b) S) = Max (insert a (insert b S))"
proof (cases "S = {}")
  case True
  then show ?thesis by (simp add: max.commute)
next
  case False
  with assms show ?thesis by (simp add: max.assoc max.commute max.left_commute)
qed

lemma sackRun_spec:
  assumes "sackRun (queueElement.sequence el) ts idx i el rest = (re, ts1, idx1, rem)"
  shows "\<exists>r. runs (el # rest) = r # runs rem \<and> el # rest = r @ rem \<and> hd r = el \<and> r \<noteq> []
           \<and> re = snd (block r)
           \<and> ts1 = Max (insert ts (cTime ` set r))
           \<and> idx1 = (if \<exists>e \<in> set r. ts < cTime e then i else idx)"
  using assms
proof (induction rest arbitrary: el ts idx)
  case Nil
  then show ?case
    by (intro exI [of _ "[el]"]) (auto simp: block_def max_def)
next
  case (Cons nxt rest)
  let ?re = "queueElement.sequence el + of_nat (PayloadLen (packet el))"
  let ?ts = "if cTime el > ts then cTime el else ts"
  let ?idx = "if cTime el > ts then i else idx"
  obtain r' rs' where rq: "runs (nxt # rest) = r' # rs'" and hd': "hd r' = nxt"
    using hd_hd_runs [of nxt rest] runs_Nil_iff [of "nxt # rest"]
    by (cases "runs (nxt # rest)") auto
  show ?case
  proof (cases "queueElement.sequence nxt \<noteq> ?re")
    case True
    with Cons.prems have res: "re = ?re" "ts1 = ?ts" "idx1 = ?idx" "rem = nxt # rest"
      by (simp_all add: Let_def)
    from True hd' have "\<not> contiguous el (hd r')" by (simp add: contiguous_def)
    with rq have "runs (el # nxt # rest) = [el] # runs (nxt # rest)" by simp
    with res show ?thesis
      by (intro exI [of _ "[el]"]) (auto simp: block_def max_def)
  next
    case False
    then have seq: "queueElement.sequence nxt = ?re" by simp
    with Cons.prems have
      "sackRun (queueElement.sequence nxt) ?ts ?idx i nxt rest = (re, ts1, idx1, rem)"
      by (simp add: Let_def)
    from Cons.IH [OF this] obtain r where r:
      "runs (nxt # rest) = r # runs rem" "nxt # rest = r @ rem" "hd r = nxt" "r \<noteq> []"
      "re = snd (block r)" "ts1 = Max (insert ?ts (cTime ` set r))"
      "idx1 = (if \<exists>e \<in> set r. ?ts < cTime e then i else ?idx)"
      by blast
    from seq r(3) have "contiguous el (hd r)" by (simp add: contiguous_def)
    with r(1) have 1: "runs (el # nxt # rest) = (el # r) # runs rem" by simp
    from r(2) have 2: "el # nxt # rest = (el # r) @ rem" by simp
    from r(4,5) have 3: "re = snd (block (el # r))" by (simp add: block_def)
    have "?ts = max ts (cTime el)" by (simp add: max_def)
    with r(6) have 4: "ts1 = Max (insert ts (cTime ` set (el # r)))"
      by (simp add: Max_insert_max)
    have 5: "idx1 = (if \<exists>e \<in> set (el # r). ts < cTime e then i else idx)"
      unfolding r(7) by (auto split: if_splits)
    from 1 2 3 4 5 show ?thesis
      by (intro exI [of _ "el # r"]) simp
  qed
qed

lemma sackEdges_spec:
  "sackEdges i ts idx q edges = (E, m) \<Longrightarrow>
     E = edges @ edgesOf (map block (runs q)) \<and>
     ((m = idx \<and> (\<forall>e\<in>set q. cTime e \<le> ts)) \<or>
      (\<exists>k < length (runs q). m = i + 2 * int k \<and>
         (\<exists>e\<in>set (runs q ! k). ts < cTime e \<and> (\<forall>e'\<in>set q. cTime e' \<le> cTime e))))"
proof (induction i ts idx q edges arbitrary: E m rule: sackEdges.induct)
  case (1 i mreTs mreIdx edges)
  then show ?case by (simp add: edgesOf_def)
next
  case (2 i ts idx el rest edges)
  obtain re ts1 idx1 rem where
    sr: "sackRun (queueElement.sequence el) ts idx i el rest = (re, ts1, idx1, rem)"
    by (cases "sackRun (queueElement.sequence el) ts idx i el rest") auto
  with "2.prems" have rec:
    "sackEdges (i + 2) ts1 idx1 rem (edges @ [queueElement.sequence el, re]) = (E, m)"
    by simp
  note ih = "2.IH" [OF sr [symmetric] refl refl rec]
  from sackRun_spec [OF sr] obtain r where r:
    "runs (el # rest) = r # runs rem" "el # rest = r @ rem" "hd r = el" "r \<noteq> []"
    "re = snd (block r)" "ts1 = Max (insert ts (cTime ` set r))"
    "idx1 = (if \<exists>e \<in> set r. ts < cTime e then i else idx)"
    by blast
  have fin: "finite (insert ts (cTime ` set r))" by simp
  have ts_le: "ts \<le> ts1" unfolding r(6) by (rule Max_ge [OF fin]) simp
  have r_le: "cTime e \<le> ts1" if "e \<in> set r" for e
    unfolding r(6) using that by (intro Max_ge [OF fin]) simp
  have blk: "block r = (queueElement.sequence el, re)"
    using r(3,5) by (simp add: block_def)
  from ih r(1) blk have E: "E = edges @ edgesOf (map block (runs (el # rest)))"
    by (simp add: edgesOf_def)
  have set_q: "set (el # rest) = set r \<union> set rem" unfolding r(2) by simp
  from ih have "(m = idx1 \<and> (\<forall>e\<in>set rem. cTime e \<le> ts1)) \<or>
      (\<exists>k < length (runs rem). m = i + 2 + 2 * int k \<and>
         (\<exists>e\<in>set (runs rem ! k). ts1 < cTime e \<and> (\<forall>e'\<in>set rem. cTime e' \<le> cTime e)))"
    by simp
  then have M: "(m = idx \<and> (\<forall>e\<in>set (el # rest). cTime e \<le> ts)) \<or>
      (\<exists>k < length (runs (el # rest)). m = i + 2 * int k \<and>
         (\<exists>e\<in>set (runs (el # rest) ! k). ts < cTime e
             \<and> (\<forall>e'\<in>set (el # rest). cTime e' \<le> cTime e)))"
  proof
    assume a: "m = idx1 \<and> (\<forall>e\<in>set rem. cTime e \<le> ts1)"
    show ?thesis
    proof (cases "\<exists>e \<in> set r. ts < cTime e")
      case True
      then have gt: "ts < ts1" using r_le by force
      have "ts1 \<in> insert ts (cTime ` set r)" unfolding r(6) by (rule Max_in [OF fin]) simp
      with gt obtain e where e: "e \<in> set r" "cTime e = ts1" by auto
      have "\<forall>e'\<in>set (el # rest). cTime e' \<le> cTime e"
        unfolding set_q using a r_le e(2) by auto
      moreover from True a r(7) have "m = i + 2 * int 0" by simp
      moreover have "0 < length (runs (el # rest))" "runs (el # rest) ! 0 = r"
        using r(1) by simp_all
      ultimately show ?thesis using e gt by (intro disjI2 exI [of _ 0]) auto
    next
      case False
      then have all: "\<forall>e\<in>set r. cTime e \<le> ts" by force
      then have "ts1 \<le> ts"
        unfolding r(6) by (intro Max.boundedI [OF fin]) auto
      with ts_le have "ts1 = ts" by linarith
      with a all False r(7) show ?thesis unfolding set_q by auto
    qed
  next
    assume "\<exists>k < length (runs rem). m = i + 2 + 2 * int k \<and>
         (\<exists>e\<in>set (runs rem ! k). ts1 < cTime e \<and> (\<forall>e'\<in>set rem. cTime e' \<le> cTime e))"
    then obtain k e where k: "k < length (runs rem)" "m = i + 2 + 2 * int k"
      "e \<in> set (runs rem ! k)" "ts1 < cTime e" "\<forall>e'\<in>set rem. cTime e' \<le> cTime e"
      by blast
    have "\<forall>e'\<in>set (el # rest). cTime e' \<le> cTime e"
      unfolding set_q using k(4,5) r_le by force
    moreover have "Suc k < length (runs (el # rest))" "runs (el # rest) ! Suc k = runs rem ! k"
      using r(1) k(1) by simp_all
    moreover have "m = i + 2 * int (Suc k)" using k(2) by simp
    moreover have "ts < cTime e" using ts_le k(4) by simp
    ultimately show ?thesis using k(3) by (intro disjI2 exI [of _ "Suc k"]) auto
  qed
  from E M show ?case by blast
qed

lemma length_edgesOf: "length (edgesOf bs) = 2 * length bs"
  by (induction bs) (auto simp: edgesOf_def)

lemma edgesOf_Cons: "edgesOf (b # bs) = fst b # snd b # edgesOf bs"
  by (cases b) (simp add: edgesOf_def)

lemma edgesOf_nth:
  "k < length bs \<Longrightarrow>
     edgesOf bs ! (2 * k) = fst (bs ! k) \<and> edgesOf bs ! Suc (2 * k) = snd (bs ! k)"
proof (induction bs arbitrary: k)
  case Nil
  then show ?case by simp
next
  case (Cons b bs)
  then show ?case by (cases k) (simp_all add: edgesOf_Cons)
qed

lemma edgesOf_update:
  "k < length bs \<Longrightarrow>
     (edgesOf bs)[2 * k := fst b, Suc (2 * k) := snd b] = edgesOf (bs[k := b])"
proof (induction bs arbitrary: k)
  case Nil
  then show ?case by simp
next
  case (Cons c bs)
  then show ?case by (cases k) (simp_all add: edgesOf_Cons)
qed

lemma take_edgesOf: "take (2 * j) (edgesOf bs) = edgesOf (take j bs)"
proof (induction bs arbitrary: j)
  case Nil
  then show ?case by (simp add: edgesOf_def)
next
  case (Cons b bs)
  show ?case
  proof (cases j)
    case 0
    then show ?thesis by (simp add: edgesOf_def)
  next
    case (Suc j')
    with Cons.IH [of j'] show ?thesis by (simp add: edgesOf_Cons)
  qed
qed

lemma concat_PutUint32_edgesOf:
  "concat (map PutUint32 (edgesOf bs)) = concat (map (\<lambda>(l, r). PutUint32 l @ PutUint32 r) bs)"
  by (induction bs) (auto simp: edgesOf_def)

lemma length_PutUint32: "length (PutUint32 v) = 4"
  by (simp add: PutUint32_def)

lemma writeEdges_eq:
  "i + 4 * length es \<le> length opts \<Longrightarrow>
     writeEdges opts i es = take i opts @ concat (map PutUint32 es) @ drop (i + 4 * length es) opts"
proof (induction es arbitrary: opts i)
  case Nil
  then show ?case by simp
next
  case (Cons e es)
  have len: "length (putAt opts i e) = length opts"
    using Cons.prems by (simp add: putAt_def length_PutUint32)
  have tk: "take (i + 4) (putAt opts i e) = take i opts @ PutUint32 e"
    using Cons.prems by (simp add: putAt_def length_PutUint32)
  have dr: "drop (i + 4 + 4 * length es) (putAt opts i e) = drop (i + 4 + 4 * length es) opts"
    using Cons.prems by (simp add: putAt_def length_PutUint32 add.commute add.left_commute)
  from Cons.prems len have "i + 4 + 4 * length es \<le> length (putAt opts i e)" by simp
  from Cons.IH [OF this] tk dr show ?case by (simp add: add.assoc)
qed

lemma swap_edges:
  assumes "0 < k" and "k < length bs"
  shows "(let e0 = edgesOf bs; le = e0 ! (2 * k); re = e0 ! (2 * k + 1);
              e1 = e0[2 * k := e0 ! 0]; e2 = e1[2 * k + 1 := e1 ! 1]; e3 = e2[0 := le]
          in e3[1 := re])
         = edgesOf (bs[k := bs ! 0, 0 := bs ! k])"
proof -
  from assms have k0: "0 < length bs" by linarith
  have n0: "edgesOf bs ! 0 = fst (bs ! 0)" "edgesOf bs ! 1 = snd (bs ! 0)"
    using edgesOf_nth [OF k0] by simp_all
  have nk: "edgesOf bs ! (2 * k) = fst (bs ! k)" "edgesOf bs ! (2 * k + 1) = snd (bs ! k)"
    using edgesOf_nth [OF assms(2)] by simp_all
  have one: "(edgesOf bs)[2 * k := fst (bs ! 0)] ! 1 = snd (bs ! 0)"
    using assms(1) n0 by simp
  have a: "(edgesOf bs)[2 * k := fst (bs ! 0), 2 * k + 1 := snd (bs ! 0)] = edgesOf (bs[k := bs ! 0])"
    using edgesOf_update [OF assms(2), of "bs ! 0"] by simp
  have "0 < length (bs[k := bs ! 0])" using k0 by simp
  from edgesOf_update [OF this, of "bs ! k"]
  have b: "(edgesOf (bs[k := bs ! 0]))[0 := fst (bs ! k), 1 := snd (bs ! k)]
           = edgesOf (bs[k := bs ! 0, 0 := bs ! k])"
    by simp
  show ?thesis
    unfolding Let_def n0 nk one a b ..
qed

lemma replicate_numeral: "replicate (numeral k) x = x # replicate (pred_numeral k) x"
  by (simp add: numeral_eq_Suc)

text \<open>
  Claim C5. For a non-empty out-of-order queue whose arrival time stamps are not
  negative (they are \<open>time.Now().UnixNano()\<close> values, and the scan for the most recent
  one starts from 0), the reply of \<open>newResponse\<close> carries a SACK option with the blocks
  \<open>bs\<close>: the blocks of the maximal contiguous runs of the queue, in queue order except
  that the block of a run \<open>k\<close> holding a record of the most recent time stamp has
  changed places with the first block, cut down to the first four. So at most four
  blocks are carried, the first one is the block of the most recent record, the option
  bytes are the kind, the length and the big-endian left and right edges of the blocks,
  and the header is at most 14 words long.
\<close>

theorem newResponse_sack_blocks:
  assumes ne: "oooQueue h \<noteq> []" and ts: "\<forall>e \<in> set (oooQueue h). 0 \<le> cTime e"
  shows "\<exists>k bs. k < length (runs (oooQueue h))
      \<and> (\<exists>e \<in> set (runs (oooQueue h) ! k). \<forall>e' \<in> set (oooQueue h). cTime e' \<le> cTime e)
      \<and> bs = take 4 ((map block (runs (oooQueue h)))
                       [k := block (runs (oooQueue h) ! 0), 0 := block (runs (oooQueue h) ! k)])
      \<and> hd bs = block (runs (oooQueue h) ! k)
      \<and> length bs = min 4 (length (runs (oooQueue h)))
      \<and> OptionBytes (newResponse h n) =
          selectiveAck # of_nat (2 + 8 * length bs) #
          concat (map (\<lambda>(l, r). PutUint32 l @ PutUint32 r) bs) @ [0, 0]
      \<and> HeaderLen (newResponse h n) = 24 + 8 * length bs
      \<and> HeaderLen (newResponse h n) div 4 \<le> 15"
proof -
  define q where "q = oooQueue h"
  define R where "R = runs q"
  define B where "B = map block R"
  from ne obtain el rest where q: "q = el # rest" unfolding q_def by (cases "oooQueue h") auto
  obtain E m where se: "sackEdges 0 0 (- 1) (el # rest) [] = (E, m)"
    by (cases "sackEdges 0 0 (- 1) (el # rest) []") auto
  have Rne: "R \<noteq> []" unfolding R_def using runs_Nil_iff [of q] q by simp
  have lenB: "length B = length R" unfolding B_def by simp
  from sackEdges_spec [OF se] have E: "E = edgesOf B"
    and M: "(m = - 1 \<and> (\<forall>e\<in>set q. cTime e \<le> 0)) \<or>
      (\<exists>k < length R. m = 2 * int k \<and>
         (\<exists>e\<in>set (R ! k). 0 < cTime e \<and> (\<forall>e'\<in>set q. cTime e' \<le> cTime e)))"
    unfolding B_def R_def q by simp_all
  let ?swapped = "\<lambda>E m. (let k = nat m; le = E ! k; re = E ! (k + 1);
                       e1 = E[k := E ! 0]; e2 = e1[k + 1 := e1 ! 1]; e3 = e2[0 := le]
                   in e3[1 := re])"
  have "\<exists>k < length R. (\<exists>e \<in> set (R ! k). \<forall>e' \<in> set q. cTime e' \<le> cTime e)
          \<and> (if m > 0 then ?swapped E m else E) = edgesOf (B[k := B ! 0, 0 := B ! k])"
    using M
  proof
    assume a: "m = - 1 \<and> (\<forall>e\<in>set q. cTime e \<le> 0)"
    from Rne have "R ! 0 \<in> set R" by simp
    then have "R ! 0 \<noteq> []" unfolding R_def by (rule runs_nonempty)
    then obtain e where e: "e \<in> set (R ! 0)" by (cases "R ! 0") auto
    with \<open>R ! 0 \<in> set R\<close> have "e \<in> set (concat R)" by auto
    then have "e \<in> set q" unfolding R_def by (simp add: concat_runs)
    with ts have "0 \<le> cTime e" unfolding q_def by simp
    with a have "\<forall>e' \<in> set q. cTime e' \<le> cTime e" by force
    with e Rne a E show ?thesis by (intro exI [of _ 0]) auto
  next
    assume "\<exists>k < length R. m = 2 * int k \<and>
         (\<exists>e\<in>set (R ! k). 0 < cTime e \<and> (\<forall>e'\<in>set q. cTime e' \<le> cTime e))"
    then obtain k where k: "k < length R" "m = 2 * int k"
      "\<exists>e\<in>set (R ! k). \<forall>e'\<in>set q. cTime e' \<le> cTime e"
      by blast
    show ?thesis
    proof (cases "k = 0")
      case True
      with k E show ?thesis by (intro exI [of _ 0]) auto
    next
      case False
      then have pos: "0 < k" by simp
      from k(2) have nm: "nat m = 2 * k" by simp
      from swap_edges [OF pos, of B] k(1) lenB
      have "?swapped E m = edgesOf (B[k := B ! 0, 0 := B ! k])"
        unfolding E nm by (simp add: Let_def)
      with pos k show ?thesis by (intro exI [of _ k]) auto
    qed
  qed
  then obtain k where k: "k < length R"
    "\<exists>e \<in> set (R ! k). \<forall>e' \<in> set q. cTime e' \<le> cTime e"
    and edges: "(if m > 0 then ?swapped E m else E) = edgesOf (B[k := B ! 0, 0 := B ! k])"
    by blast
  define B' where "B' = B[k := B ! 0, 0 := B ! k]"
  define bs where "bs = take 4 B'"
  have lenB': "length B' = length R" unfolding B'_def lenB [symmetric] by simp
  have lenbs: "length bs = min 4 (length R)" unfolding bs_def using lenB' by simp
  have lenE: "length E = 2 * length R" unfolding E by (simp add: length_edgesOf lenB)
  define ne where "ne = (if length E > maxEdges then maxEdges else length E)"
  have ne2: "ne = 2 * length bs" unfolding ne_def lenE lenbs maxEdges_def by auto
  have tk: "take ne (if m > 0 then ?swapped E m else E) = edgesOf bs"
    unfolding edges ne2 lenbs B'_def [symmetric] bs_def
    by (simp add: take_edgesOf min_def)
  have hdbs: "hd bs = block (R ! k)"
  proof -
    from Rne have "0 < length B'" using lenB' by simp
    then have "hd bs = B' ! 0" unfolding bs_def by (simp add: hd_conv_nth)
    also have "\<dots> = B ! k" unfolding B'_def using Rne lenB by simp
    also have "\<dots> = block (R ! k)" unfolding B_def using k(1) by simp
    finally show ?thesis .
  qed
  let ?hl = "tcpHeaderLen + 4 + ne * 4"
  let ?opts = "(OptionBytes (NewReplyPacket ?hl n))[0 := selectiveAck, 1 := of_nat (2 + ne * 4)]"
  have nr: "newResponse h n =
      (NewReplyPacket ?hl n)\<lparr>OptionBytes := writeEdges ?opts 2 (edgesOf bs)\<rparr>"
    using q se tk unfolding q_def ne_def
    by (simp add: newResponse_def Let_def)
  have lopts: "length ?opts = 4 + 8 * length bs"
    by (simp add: NewReplyPacket_def ne2)
  have we: "writeEdges ?opts 2 (edgesOf bs) =
      take 2 ?opts @ concat (map PutUint32 (edgesOf bs)) @ drop (2 + 4 * length (edgesOf bs)) ?opts"
    using lopts by (intro writeEdges_eq) (simp add: length_edgesOf)
  have t2: "take 2 ?opts = [selectiveAck, of_nat (2 + 8 * length bs)]"
    by (simp add: NewReplyPacket_def ne2 tcpHeaderLen_def numeral_2_eq_2 take_Suc_conv_app_nth)
  have d2: "drop (2 + 4 * length (edgesOf bs)) ?opts = [0, 0]"
    by (simp add: NewReplyPacket_def ne2 tcpHeaderLen_def length_edgesOf drop_update_cancel)
       (simp add: numeral_2_eq_2)
  have ob: "OptionBytes (newResponse h n) =
          selectiveAck # of_nat (2 + 8 * length bs) #
          concat (map (\<lambda>(l, r). PutUint32 l @ PutUint32 r) bs) @ [0, 0]"
    by (simp only: nr we t2 d2 concat_PutUint32_edgesOf append.simps) simp
  have hl: "HeaderLen (newResponse h n) = 24 + 8 * length bs"
    unfolding nr by (simp add: NewReplyPacket_def tcpHeaderLen_def ne2)
  have "length bs \<le> 4" unfolding lenbs by simp
  with hl have dv: "HeaderLen (newResponse h n) div 4 \<le> 15" by simp
  have bsalt: "bs = take 4 ((map block R)[k := block (R ! 0), 0 := block (R ! k)])"
    unfolding bs_def B'_def B_def using k(1) Rne by simp
  have "k < length R
      \<and> (\<exists>e \<in> set (R ! k). \<forall>e' \<in> set q. cTime e' \<le> cTime e)
      \<and> bs = take 4 ((map block R)[k := block (R ! 0), 0 := block (R ! k)])
      \<and> hd bs = block (R ! k)
      \<and> length bs = min 4 (length R)
      \<and> OptionBytes (newResponse h n) =
          selectiveAck # of_nat (2 + 8 * length bs) #
          concat (map (\<lambda>(l, r). PutUint32 l @ PutUint32 r) bs) @ [0, 0]
      \<and> HeaderLen (newResponse h n) = 24 + 8 * length bs
      \<and> HeaderLen (newResponse h n) div 4 \<le> 15"
    using k bsalt hdbs lenbs ob hl dv by (intro conjI)
  then show ?thesis unfolding R_def q_def by blast
qed

theorem newResponse_sack_blocks_witness:
  "oooQueue (exHandler\<lparr>oooQueue :=
       [exElement 100 100 10 1, exElement 110 110 10 5, exElement 300 300 10 9]\<rparr>) \<noteq> []
   \<and> map cTime [exElement 100 100 10 1, exElement 110 110 10 5, exElement 300 300 10 9]
       = [1, 5, 9]
   \<and> map block (runs [exElement 100 100 10 1, exElement 110 110 10 5, exElement 300 300 10 9])
       = [(100, 120), (300, 310)]
   \<and> OptionBytes (newResponse (exHandler\<lparr>oooQueue :=
         [exElement 100 100 10 1, exElement 110 110 10 5, exElement 300 300 10 9]\<rparr>) 0)
       = [5, 18, 0, 0, 1, 44, 0, 0, 1, 54, 0, 0, 0, 100, 0, 0, 0, 120, 0, 0]
   \<and> HeaderLen (newResponse (exHandler\<lparr>oooQueue :=
         [exElement 100 100 10 1, exElement 110 110 10 5, exElement 300 300 10 9]\<rparr>) 0) div 4
       \<le> 15"
proof -
  let ?q = "[exElement 100 100 10 1, exElement 110 110 10 5, exElement 300 300 10 9]"
  let ?h = "exHandler\<lparr>oooQueue := ?q\<rparr>"
  have ne: "oooQueue ?h \<noteq> []" by simp
  have ts: "\<forall>e \<in> set (oooQueue ?h). 0 \<le> cTime e" by (simp add: exElement_def)
  have ct: "map cTime ?q = [1, 5, 9]" by (simp add: exElement_def)
  have rb: "map block (runs ?q) = [(100, 120), (300, 310)]"
    by (simp add: block_def contiguous_def exElement_def exPacket_def PayloadLen_def
        NewReplyPacket_def)
  have ob: "OptionBytes (newResponse ?h 0)
       = [5, 18, 0, 0, 1, 44, 0, 0, 1, 54, 0, 0, 0, 100, 0, 0, 0, 120, 0, 0]"
    by (simp add: newResponse_def Let_def maxEdges_def putAt_def PutUint32_def selectiveAck_def
        tcpHeaderLen_def exElement_def exPacket_def PayloadLen_def NewReplyPacket_def
        replicate_numeral)
  from newResponse_sack_blocks [OF ne ts, of 0]
  have "HeaderLen (newResponse ?h 0) div 4 \<le> 15" by blast
  with ne ct rb ob show ?thesis by simp
qed

end
